theory Spec2Isabelle
  imports Complex_Main
begin

section \<open>Data model of the canvas\<close>

text \<open>
  The canvas keeps two arrays, \<open>nodes\<close> and \<open>edges\<close>. A node is a React Flow node
  object: \<open>id\<close>, \<open>type\<close>, \<open>position\<close>, the optional \<open>parentNode\<close>, \<open>extent\<close>,
  \<open>hidden\<close>, \<open>style\<close> and \<open>selected\<close> fields, and the \<open>data\<close> object whose fields are
  flattened into the record. An optional JavaScript field is an \<open>option\<close>: \<open>None\<close> is
  \<open>undefined\<close> (or \<open>null\<close>). Coordinates are JavaScript numbers, idealised as reals.
  Strings are lists of characters.
\<close>

datatype node_type = PromptNode | TemplateNode | GroupNode | ImageNode

record node =
  node_id :: string
  node_type :: node_type
  position_x :: real
  position_y :: real
  parentNode :: "string option"
  extent :: "string option"
  hidden :: "bool option"
  style_width :: "real option"
  style_height :: "real option"
  selected :: "bool option"
  title :: "string option"
  content :: "string option"
  template :: "string option"
  template_values :: "(string \<times> string) list option"
  isExpanded :: "bool option"
  color :: "string option"
  attachedTo :: "string option"
  anchorPoint :: "string option"
  offset_x :: "real option"
  offset_y :: "real option"

text \<open>
  An edge is a React Flow edge: \<open>id\<close>, \<open>source\<close>, \<open>target\<close>, \<open>type\<close> and the \<open>data\<close>
  object with \<open>color\<close> and \<open>active\<close>. \<open>active = None\<close> is an edge whose \<open>data.active\<close>
  is absent.
\<close>

record edge =
  edge_id :: string
  source :: string
  target :: string
  edge_type :: "string option"
  edge_color :: "string option"
  active :: "bool option"

section \<open>Plain objects used as dictionaries\<close>

text \<open>
  Several functions keep a dictionary in an object made by an object literal. Such an
  object has its own properties, kept here as a list of names and values in the order in
  which the properties were created, and it inherits the members of \<open>Object.prototype\<close>.
  The members are those of the language standard: eleven functions, recorded with their
  \<open>name\<close> and \<open>length\<close>, and the accessor \<open>__proto__\<close>, which reads as the prototype
  object itself.
\<close>

datatype member = NativeFunction string nat | PrototypeObject

definition Object_prototype :: "(string \<times> member) list" where
  "Object_prototype =
     [(''constructor'', NativeFunction ''Object'' 1),
      (''__defineGetter__'', NativeFunction ''__defineGetter__'' 2),
      (''__defineSetter__'', NativeFunction ''__defineSetter__'' 2),
      (''hasOwnProperty'', NativeFunction ''hasOwnProperty'' 1),
      (''__lookupGetter__'', NativeFunction ''__lookupGetter__'' 1),
      (''__lookupSetter__'', NativeFunction ''__lookupSetter__'' 1),
      (''isPrototypeOf'', NativeFunction ''isPrototypeOf'' 1),
      (''propertyIsEnumerable'', NativeFunction ''propertyIsEnumerable'' 1),
      (''toString'', NativeFunction ''toString'' 0),
      (''valueOf'', NativeFunction ''valueOf'' 0),
      (''__proto__'', PrototypeObject),
      (''toLocaleString'', NativeFunction ''toLocaleString'' 0)]"

text \<open>The names that every plain object answers to without owning them.\<close>

definition inherited :: "string \<Rightarrow> bool" where
  "inherited k = (map_of Object_prototype k \<noteq> None)"

text \<open>
  \<open>obj[k]\<close>: the own property \<open>k\<close> when there is one, the inherited member named \<open>k\<close>
  otherwise, and \<open>undefined\<close> when there is neither.
\<close>

datatype 'a property = Own 'a | Inherited member | Undefined

definition get_property :: "(string \<times> 'a) list \<Rightarrow> string \<Rightarrow> 'a property" where
  "get_property obj k =
     (case map_of obj k of
        Some v \<Rightarrow> Own v
      | None \<Rightarrow> (case map_of Object_prototype k of Some m \<Rightarrow> Inherited m | None \<Rightarrow> Undefined))"

text \<open>
  \<open>obj[k] = v\<close> for a name other than \<open>__proto__\<close>: an own property keeps its place and
  gets the value, a new one is added at the end.
\<close>

fun set_property :: "string \<Rightarrow> 'a \<Rightarrow> (string \<times> 'a) list \<Rightarrow> (string \<times> 'a) list" where
  "set_property k v [] = [(k, v)]"
| "set_property k v (p # ps) = (if fst p = k then (k, v) # ps else p # set_property k v ps)"

text \<open>
  \<open>String(m)\<close> for an inherited member: a native function prints its name between
  \<open>function\<close> and the body \<open>{ [native code] }\<close> (the spacing is the one of V8), the
  prototype object prints as \<open>[object Object]\<close>.
\<close>

definition member_text :: "member \<Rightarrow> string" where
  "member_text m =
     (case m of
        NativeFunction name len \<Rightarrow> ''function '' @ name @ ''() { [native code] }''
      | PrototypeObject \<Rightarrow> ''[object Object]'')"

text \<open>
  The one exception the functions below can raise is a \<open>TypeError\<close>: a method is called
  on a value that does not have it, or a native function is called on \<open>undefined\<close>. A
  function that can throw returns the exception on the left and its result on the right.
\<close>

datatype error = TypeError

text \<open>\<open>xs.forEach(f)\<close> for a callback that updates a state and may throw.\<close>

fun forEach :: "('a \<Rightarrow> 's \<Rightarrow> error + 's) \<Rightarrow> 'a list \<Rightarrow> 's \<Rightarrow> error + 's" where
  "forEach f [] s = Inr s"
| "forEach f (x # xs) s = (case f x s of Inl err \<Rightarrow> Inl err | Inr s' \<Rightarrow> forEach f xs s')"

text \<open>
  \<open>if (!obj[k]) obj[k] = []; obj[k].push(v)\<close>: an own array is truthy and gets the value
  at its end; a missing property is created first; an inherited member is truthy too,
  so nothing is created, and it has no \<open>push\<close>, so the call throws.
\<close>

definition push_to ::
  "string \<Rightarrow> string \<Rightarrow> (string \<times> string list) list \<Rightarrow> error + (string \<times> string list) list" where
  "push_to k v obj =
     (case get_property obj k of
        Undefined \<Rightarrow> Inr (set_property k [v] obj)
      | Own l \<Rightarrow> Inr (set_property k (l @ [v]) obj)
      | Inherited m \<Rightarrow> Inl TypeError)"

text \<open>
  \<open>const connected = obj[k] || []\<close> followed by \<open>connected.forEach(...)\<close> (or \<open>every\<close>):
  the list that is iterated. An inherited member is truthy and has neither method, so the
  call throws.
\<close>

definition connected :: "(string \<times> string list) list \<Rightarrow> string \<Rightarrow> error + string list" where
  "connected obj k =
     (case get_property obj k of
        Own l \<Rightarrow> Inr l
      | Undefined \<Rightarrow> Inr []
      | Inherited m \<Rightarrow> Inl TypeError)"

text \<open>The list held by an own property, and the empty list when there is none.\<close>

definition own_targets :: "(string \<times> string list) list \<Rightarrow> string \<Rightarrow> string list" where
  "own_targets obj k = (case map_of obj k of None \<Rightarrow> [] | Some l \<Rightarrow> l)"

section \<open>Active edges\<close>

text \<open>
  \<open>data?.active !== false\<close>: the test that \<open>CustomEdge\<close>, \<open>copyAllConnected\<close> and
  \<open>copyPathFromNode\<close> all apply to an edge.
\<close>

definition isActive :: "edge \<Rightarrow> bool" where
  "isActive e = (active e \<noteq> Some False)"






text \<open>\<open>edges.filter((e) => e.data?.active !== false)\<close>\<close>

definition activeEdges :: "edge list \<Rightarrow> edge list" where
  "activeEdges edges = filter isActive edges"

text \<open>
  The adjacency object of \<open>copyAllConnected\<close> and \<open>copyPathFromNode\<close>: the callback of
  \<open>activeEdges.forEach\<close>, and the object it leaves.
\<close>

definition adj_push ::
  "edge \<Rightarrow> (string \<times> string list) list \<Rightarrow> error + (string \<times> string list) list" where
  "adj_push edge adjacency = push_to (source edge) (target edge) adjacency"

definition adjacency :: "edge list \<Rightarrow> error + (string \<times> string list) list" where
  "adjacency aes = forEach adj_push aes []"

section \<open>Switching the active branch\<close>

text \<open>
  \<open>handleToggleActive\<close> of the edge component with props \<open>id\<close> and \<open>target\<close>: the
  updater it passes to \<open>setEdges\<close>, and first the callback of its \<open>map\<close>.
\<close>

definition toggle_edge :: "string \<Rightarrow> string \<Rightarrow> edge \<Rightarrow> edge" where
  "toggle_edge eid tgt e =
     (if target e = tgt \<and> edge_id e \<noteq> eid then e\<lparr>active := Some False\<rparr>
      else if edge_id e = eid then e\<lparr>active := Some True\<rparr>
      else e)"

definition handleToggleActive :: "string \<Rightarrow> string \<Rightarrow> edge list \<Rightarrow> edge list" where
  "handleToggleActive eid tgt edges = map (toggle_edge eid tgt) edges"

text \<open>
  The handler belongs to the component rendered for an edge of the array, whose props
  \<open>id\<close> and \<open>target\<close> are that edge's; there is no component, hence no call, for an id
  that no edge has.
\<close>

definition setActive :: "edge list \<Rightarrow> string \<Rightarrow> edge list" where
  "setActive edges eid =
     (case find (\<lambda>e. edge_id e = eid) edges of
        None \<Rightarrow> edges
      | Some e \<Rightarrow> handleToggleActive eid (target e) edges)"

text \<open>At most one edge into each target carries \<open>active = true\<close>.\<close>

definition branch_inv :: "edge list \<Rightarrow> bool" where
  "branch_inv edges =
     (\<forall>e \<in> set edges.
        length (filter (\<lambda>x. target x = target e \<and> active x = Some True) edges) \<le> 1)"

section \<open>Template substitution\<close>

text \<open>\<open>\w\<close> of a regular expression without the unicode flag: \<open>[A-Za-z0-9_]\<close>.\<close>

definition word_char :: "char \<Rightarrow> bool" where
  "word_char c =
     (c \<in> set ''abcdefghijklmnopqrstuvwxyzABCDEFGHIJKLMNOPQRSTUVWXYZ0123456789_'')"

text \<open>
  A match of \<open>/\{\{(\w+)\}\}/\<close> at the very start of a string: the captured key and
  the text after the match. The key is the longest run of word characters after the two
  opening braces; giving characters of the run back can never help, because the next
  character would then be a word character and not a closing brace.
\<close>

definition match_placeholder :: "string \<Rightarrow> (string \<times> string) option" where
  "match_placeholder s =
     (case s of
        c1 # c2 # t \<Rightarrow>
          (if c1 = CHR ''{'' \<and> c2 = CHR ''{'' then
             (let key = takeWhile word_char t; r = dropWhile word_char t
              in if key \<noteq> [] \<and> take 2 r = ''}}'' then Some (key, drop 2 r) else None)
           else None)
      | _ \<Rightarrow> None)"

lemma match_placeholder_shorter:
  "match_placeholder s = Some (key, rest) \<Longrightarrow> length rest < length s"
proof -
  assume m: "match_placeholder s = Some (key, rest)"
  then obtain c1 c2 t where s: "s = c1 # c2 # t"
    by (cases s; cases "tl s") (auto simp: match_placeholder_def)
  from m s have "rest = drop 2 (dropWhile word_char t)"
    by (auto simp: match_placeholder_def Let_def split: if_splits)
  moreover have "length (dropWhile word_char t) \<le> length t"
    by (rule length_dropWhile_le)
  ultimately show ?thesis using s by simp
qed

text \<open>
  \<open>String.prototype.replace\<close> with the global pattern and a replacer function: the
  string is scanned from the left; where the pattern matches, the replacer's result for
  the captured key is emitted and the scan goes on after the match; elsewhere the
  character is copied.
\<close>

function replace_placeholders :: "(string \<Rightarrow> string) \<Rightarrow> string \<Rightarrow> string" where
  "replace_placeholders f [] = []"
| "replace_placeholders f (c # cs) =
     (case match_placeholder (c # cs) of
        Some (key, rest) \<Rightarrow> f key @ replace_placeholders f rest
      | None \<Rightarrow> c # replace_placeholders f cs)"
  by pat_completeness auto
termination
  by (relation "measure (\<lambda>(f, s). length s)")
     (auto dest: match_placeholder_shorter)

text \<open>
  \<open>values[key] || key\<close>, as the replacer returns it and \<open>replace\<close> turns it into a
  string: a missing or empty value is falsy, an inherited member is truthy.
\<close>

definition value_or_key :: "(string \<times> string) list \<Rightarrow> string \<Rightarrow> string" where
  "value_or_key vals key =
     (case get_property vals key of
        Own v \<Rightarrow> (if v = [] then key else v)
      | Undefined \<Rightarrow> key
      | Inherited m \<Rightarrow> member_text m)"

text \<open>\<open>template.replace(/\{\{(\w+)\}\}/g, (_, key) => values[key] || key)\<close>\<close>

definition render :: "string \<Rightarrow> (string \<times> string) list \<Rightarrow> string" where
  "render tpl vals = replace_placeholders (value_or_key vals) tpl"










section \<open>Copying the active path\<close>

text \<open>
  The breadth-first loop shared by \<open>copyAllConnected\<close> and \<open>copyPathFromNode\<close>:
  \<open>adj\<close> is the adjacency object, \<open>visited\<close> the Set, \<open>orderedNodes\<close> the array being
  filled and the last argument the queue. The loop throws when the id taken from the
  queue names an inherited member of the adjacency object.
\<close>

definition push_node :: "node list \<Rightarrow> string \<Rightarrow> node list \<Rightarrow> node list" where
  "push_node nodes nodeId orderedNodes =
     (case find (\<lambda>n. node_id n = nodeId) nodes of
        None \<Rightarrow> orderedNodes
      | Some n \<Rightarrow> (if node_type n \<noteq> GroupNode then orderedNodes @ [n] else orderedNodes))"

text \<open>
  The order in which the loop descends: the ids that are still to be visited (those in
  the queue or in a list of the adjacency object, and not in \<open>visited\<close>) become fewer,
  or stay and the queue gets shorter.
\<close>

definition bfs_order ::
  "((node list \<times> (string \<times> string list) list \<times> string set \<times> node list \<times> string list) \<times>
    (node list \<times> (string \<times> string list) list \<times> string set \<times> node list \<times> string list)) set" where
  "bfs_order =
     measures [\<lambda>(nodes, adj, visited, orderedNodes, queue).
                 card ((set queue \<union> (\<Union>p \<in> set adj. set (snd p))) - visited),
               \<lambda>(nodes, adj, visited, orderedNodes, queue). length queue]"

lemma bfs_order_skip:
  "((nodes, adj, visited, orderedNodes, queue),
    (nodes, adj, visited, orderedNodes, nodeId # queue)) \<in> bfs_order"
proof -
  have "card ((set queue \<union> (\<Union>p \<in> set adj. set (snd p))) - visited)
          \<le> card ((set (nodeId # queue) \<union> (\<Union>p \<in> set adj. set (snd p))) - visited)"
    by (rule card_mono) auto
  then show ?thesis
    by (auto simp: bfs_order_def)
qed

lemma connected_own:
  assumes "connected adj nodeId = Inr targets"
  shows "set targets \<subseteq> (\<Union>p \<in> set adj. set (snd p))"
proof (cases "map_of adj nodeId")
  case None
  with assms show ?thesis
    by (auto simp: connected_def get_property_def split: option.splits)
next
  case (Some l)
  then have "(nodeId, l) \<in> set adj"
    by (rule map_of_SomeD)
  moreover from Some assms have "targets = l"
    by (simp add: connected_def get_property_def)
  ultimately show ?thesis
    by force
qed

lemma bfs_order_visit:
  assumes "nodeId \<notin> visited" and "connected adj nodeId = Inr targets"
  shows "((nodes, adj, insert nodeId visited, orderedNodes',
           queue @ filter (\<lambda>targetId. targetId \<notin> insert nodeId visited) targets),
          (nodes, adj, visited, orderedNodes, nodeId # queue)) \<in> bfs_order"
proof -
  let ?q = "queue @ filter (\<lambda>targetId. targetId \<notin> insert nodeId visited) targets"
  let ?T = "\<Union>p \<in> set adj. set (snd p)"
  have "(set ?q \<union> ?T) - insert nodeId visited \<subset> (set (nodeId # queue) \<union> ?T) - visited"
    using assms(1) connected_own[OF assms(2)] by auto
  then have "card ((set ?q \<union> ?T) - insert nodeId visited)
          < card ((set (nodeId # queue) \<union> ?T) - visited)"
    by (intro psubset_card_mono) auto
  then show ?thesis
    by (simp add: bfs_order_def)
qed

function (domintros) bfs ::
  "node list \<Rightarrow> (string \<times> string list) list \<Rightarrow> string set \<Rightarrow> node list \<Rightarrow> string list
     \<Rightarrow> error + node list" where
  "bfs nodes adj visited orderedNodes [] = Inr orderedNodes"
| "bfs nodes adj visited orderedNodes (nodeId # queue) =
     (if nodeId \<in> visited then bfs nodes adj visited orderedNodes queue
      else (case connected adj nodeId of
              Inl err \<Rightarrow> Inl err
            | Inr targets \<Rightarrow>
                bfs nodes adj (insert nodeId visited) (push_node nodes nodeId orderedNodes)
                  (queue @ filter (\<lambda>targetId. targetId \<notin> insert nodeId visited) targets)))"
  by pat_completeness auto

termination
proof (relation bfs_order, goal_cases)
  case 1
  show ?case by (simp add: bfs_order_def)
next
  case 2
  show ?case by (rule bfs_order_skip)
next
  case 3
  then show ?case by (rule bfs_order_visit)
qed

text \<open>Every state of the loop is in the domain of the recursion: the loop ends.\<close>

lemma bfs_terminates: "bfs_dom (nodes, adj, visited, orderedNodes, queue)"
proof -
  have wf: "wf bfs_order"
    by (simp add: bfs_order_def)
  have "bfs_dom x" for x
  proof (induction x rule: wf_induct_rule[OF wf])
    case (1 x)
    obtain nodes adj visited orderedNodes queue
      where x: "x = (nodes, adj, visited, orderedNodes, queue)"
      by (cases x)
    show ?case
    proof (cases queue)
      case Nil
      then show ?thesis
        by (simp add: x bfs.domintros)
    next
      case (Cons nodeId rest)
      show ?thesis
        unfolding x Cons
      proof (rule bfs.domintros)
        have "((nodes, adj, visited, orderedNodes, rest), x) \<in> bfs_order"
          unfolding x Cons by (rule bfs_order_skip)
        then show "bfs_dom (nodes, adj, visited, orderedNodes, rest)"
          by (rule 1)
      next
        fix targets
        assume "nodeId \<notin> visited" and "connected adj nodeId = Inr targets"
        then have "((nodes, adj, insert nodeId visited, push_node nodes nodeId orderedNodes,
                     rest @ filter (\<lambda>targetId. targetId \<notin> insert nodeId visited) targets), x)
                   \<in> bfs_order"
          unfolding x Cons by (rule bfs_order_visit)
        then have "bfs_dom (nodes, adj, insert nodeId visited,
                     push_node nodes nodeId orderedNodes,
                     rest @ filter (\<lambda>targetId. targetId \<notin> insert nodeId visited) targets)"
          by (rule 1)
        then show "bfs_dom (nodes, adj, insert nodeId visited,
                     push_node nodes nodeId orderedNodes,
                     rest @ filter (\<lambda>targetId. targetId \<noteq> nodeId \<and> targetId \<notin> visited) targets)"
          by simp
      qed
    qed
  qed
  then show ?thesis .
qed

text \<open>\<open>String.prototype.trim\<close> on code units below 256: the white space and line
  terminators are TAB, LF, VT, FF, CR, SP and NBSP.\<close>

definition js_whitespace :: "char \<Rightarrow> bool" where
  "js_whitespace c =
     (c \<in> {CHR 0x09, CHR 0x0A, CHR 0x0B, CHR 0x0C, CHR 0x0D, CHR 0x20, CHR 0xA0})"

definition trim :: "string \<Rightarrow> string" where
  "trim s = rev (dropWhile js_whitespace (rev (dropWhile js_whitespace s)))"

text \<open>\<open>Array.prototype.join\<close>\<close>

fun join :: "string \<Rightarrow> string list \<Rightarrow> string" where
  "join sep [] = []"
| "join sep [x] = x"
| "join sep (x # y # ys) = x @ sep @ join sep (y # ys)"

text \<open>The callback of \<open>orderedNodes.map\<close>: the text one node contributes.\<close>

definition node_text :: "node \<Rightarrow> string" where
  "node_text n =
     (if node_type n = TemplateNode then
        render (case template n of None \<Rightarrow> [] | Some t \<Rightarrow> t)
               (case template_values n of None \<Rightarrow> [] | Some v \<Rightarrow> v)
      else (case content n of None \<Rightarrow> [] | Some c \<Rightarrow> c))"

text \<open>\<open>.map(...).filter((content) => content.trim()).join("\n\n")\<close>\<close>

definition combinedPrompt :: "node list \<Rightarrow> string" where
  "combinedPrompt orderedNodes =
     join [CHR 0x0A, CHR 0x0A] (filter (\<lambda>c. trim c \<noteq> []) (map node_text orderedNodes))"

definition roots :: "node list \<Rightarrow> edge list \<Rightarrow> node list" where
  "roots nodes aes =
     filter (\<lambda>n. node_type n \<noteq> GroupNode
                \<and> node_id n \<in> set (map source aes)
                \<and> node_id n \<notin> set (map target aes)) nodes"

text \<open>
  \<open>copyAllConnected\<close>: the text written to the clipboard, \<open>None\<close> when the function
  returns early and writes nothing, and the exception when the adjacency object cannot be
  built or the loop throws.
\<close>

definition copyAllConnected :: "node list \<Rightarrow> edge list \<Rightarrow> error + string option" where
  "copyAllConnected nodes edges =
     (let aes = activeEdges edges
      in case adjacency aes of
           Inl err \<Rightarrow> Inl err
         | Inr adj \<Rightarrow>
             (let rts = roots nodes aes
              in if rts = [] \<and> aes = [] then Inr None
                 else (case bfs nodes adj {} [] (map node_id rts) of
                         Inl err \<Rightarrow> Inl err
                       | Inr orderedNodes \<Rightarrow> Inr (Some (combinedPrompt orderedNodes)))))"

text \<open>
  The \<open>orderedNodes\<close> array of \<open>copyAllConnected\<close> when its loop has ended, whether or
  not the function has returned before the loop.
\<close>

definition orderedNodes_all :: "node list \<Rightarrow> edge list \<Rightarrow> error + node list" where
  "orderedNodes_all nodes edges =
     (let aes = activeEdges edges
      in case adjacency aes of
           Inl err \<Rightarrow> Inl err
         | Inr adj \<Rightarrow> bfs nodes adj {} [] (map node_id (roots nodes aes)))"

text \<open>The \<open>orderedNodes\<close> array of \<open>copyPathFromNode\<close> when its loop has ended.\<close>

definition orderedNodes_from :: "string \<Rightarrow> node list \<Rightarrow> edge list \<Rightarrow> error + node list" where
  "orderedNodes_from startNodeId nodes edges =
     (case adjacency (activeEdges edges) of
        Inl err \<Rightarrow> Inl err
      | Inr adj \<Rightarrow> bfs nodes adj {} [] [startNodeId])"

text \<open>
  \<open>copyPathFromNode\<close>: the clipboard is written only when the combined text is not
  empty.
\<close>

definition copyPathFromNode :: "string \<Rightarrow> node list \<Rightarrow> edge list \<Rightarrow> error + string option" where
  "copyPathFromNode startNodeId nodes edges =
     (case orderedNodes_from startNodeId nodes edges of
        Inl err \<Rightarrow> Inl err
      | Inr orderedNodes \<Rightarrow>
          (let combined = combinedPrompt orderedNodes
           in if combined \<noteq> [] then Inr (Some combined) else Inr None))"

section \<open>Deleting a node\<close>

text \<open>The sheet being edited: the two arrays held in React state.\<close>

record sheet =
  sheet_nodes :: "node list"
  sheet_edges :: "edge list"

text \<open>
  The callback of the \<open>map\<close> in \<open>deleteNode\<close>: a child of the deleted node gets its
  absolute position and loses \<open>parentNode\<close>, \<open>extent\<close> and \<open>hidden\<close>.
\<close>

definition detach_child :: "string \<Rightarrow> node \<Rightarrow> node \<Rightarrow> node" where
  "detach_child nodeId nodeToDelete node =
     (if parentNode node = Some nodeId then
        node\<lparr>position_x := position_x nodeToDelete + position_x node,
             position_y := position_y nodeToDelete + position_y node,
             parentNode := None, extent := None, hidden := None\<rparr>
      else node)"

text \<open>The updater \<open>deleteNode\<close> passes to \<open>setNodes\<close>.\<close>

definition deleteNode_nodes :: "string \<Rightarrow> node list \<Rightarrow> node list" where
  "deleteNode_nodes nodeId nds =
     (case find (\<lambda>n. node_id n = nodeId) nds of
        None \<Rightarrow> filter (\<lambda>node. node_id node \<noteq> nodeId) nds
      | Some nodeToDelete \<Rightarrow>
          map (detach_child nodeId nodeToDelete)
              (filter (\<lambda>node. node_id node \<noteq> nodeId) nds))"

text \<open>The updater \<open>deleteNode\<close> passes to \<open>setEdges\<close>.\<close>

definition deleteNode_edges :: "string \<Rightarrow> edge list \<Rightarrow> edge list" where
  "deleteNode_edges nodeId eds =
     filter (\<lambda>edge. source edge \<noteq> nodeId \<and> target edge \<noteq> nodeId) eds"

text \<open>
  \<open>deleteNode\<close>: both updaters. (It also closes the sidebar when the deleted node was
  the selected one; the selection is not part of the sheet.)
\<close>

definition deleteNode :: "string \<Rightarrow> sheet \<Rightarrow> sheet" where
  "deleteNode nodeId sh =
     \<lparr>sheet_nodes = deleteNode_nodes nodeId (sheet_nodes sh),
      sheet_edges = deleteNode_edges nodeId (sheet_edges sh)\<rparr>"

section \<open>Attached images\<close>

text \<open>Truthiness of an optional string: \<open>undefined\<close>, \<open>null\<close> and \<open>""\<close> are falsy.\<close>

definition truthy :: "string option \<Rightarrow> bool" where
  "truthy s = (case s of None \<Rightarrow> False | Some v \<Rightarrow> v \<noteq> [])"

text \<open>\<open>x || d\<close> for an optional number: \<open>undefined\<close> and \<open>0\<close> are falsy.\<close>

definition num_or :: "real option \<Rightarrow> real \<Rightarrow> real" where
  "num_or x d = (case x of None \<Rightarrow> d | Some v \<Rightarrow> (if v = 0 then d else v))"

text \<open>
  \<open>calculateAnchorPosition\<close> of \<open>imageHandler.js\<close>: \<open>anchors[anchorPoint] ||
  anchors['top-right']\<close>. The result is \<open>None\<close> when the anchor names an inherited member
  of the \<open>anchors\<close> object: that member is returned, and it has neither \<open>x\<close> nor \<open>y\<close>.
\<close>

definition anchors :: "node \<Rightarrow> (string \<times> real \<times> real) list" where
  "anchors parent =
     (let x = position_x parent; y = position_y parent;
          width = num_or (style_width parent) 280;
          height = num_or (style_height parent) 180
      in [(''top-left'', (x - 100, y - 100)),
          (''top-right'', (x + width + 20, y)),
          (''bottom-left'', (x - 100, y + height + 20)),
          (''bottom-right'', (x + width + 20, y + height)),
          (''center'', (x + width / 2, y + height / 2))])"

definition calculateAnchorPosition :: "node \<Rightarrow> string option \<Rightarrow> (real \<times> real) option" where
  "calculateAnchorPosition parent anchor =
     (case get_property (anchors parent) (case anchor of None \<Rightarrow> ''undefined'' | Some a \<Rightarrow> a) of
        Own pos \<Rightarrow> Some pos
      | Undefined \<Rightarrow> map_of (anchors parent) ''top-right''
      | Inherited m \<Rightarrow> None)"

text \<open>
  The effect that keeps attached images with their parents: what its \<open>map\<close> callback
  returns for one node. Without an anchor position both new coordinates are \<open>NaN\<close>, no
  comparison with them holds, and the node is returned as it is.
\<close>

definition sync_node :: "node list \<Rightarrow> node \<Rightarrow> node" where
  "sync_node currentNodes node =
     (if node_type node = ImageNode \<and> truthy (attachedTo node) then
        (case find (\<lambda>n. Some (node_id n) = attachedTo node) currentNodes of
           None \<Rightarrow> node\<lparr>attachedTo := None\<rparr>
         | Some parent \<Rightarrow>
             (case calculateAnchorPosition parent (anchorPoint node) of
                None \<Rightarrow> node
              | Some anchorPos \<Rightarrow>
                  (let newX = fst anchorPos + num_or (offset_x node) 0;
                       newY = snd anchorPos + num_or (offset_y node) 0
                   in if \<bar>position_x node - newX\<bar> > 1 \<or> \<bar>position_y node - newY\<bar> > 1
                      then node\<lparr>position_x := newX, position_y := newY\<rparr>
                      else node)))
      else node)"

text \<open>
  The updater of the effect. \<open>hasChanges\<close> is set exactly when the callback returned
  a node that differs from its argument, so the array returned holds the callback's
  results in either case.
\<close>

definition syncAttachedImages :: "node list \<Rightarrow> node list" where
  "syncAttachedImages currentNodes =
     (if filter (\<lambda>n. node_type n = ImageNode \<and> truthy (attachedTo n)) currentNodes = []
      then currentNodes
      else map (sync_node currentNodes) currentNodes)"

text \<open>
  The dependency of the effect: one entry \<open>id-x-y\<close> for each node that is not attached.
  The entries are kept as a list here, where the source joins them with commas.
\<close>

definition syncDependency :: "node list \<Rightarrow> (string \<times> real \<times> real) list" where
  "syncDependency nodes =
     map (\<lambda>n. (node_id n, position_x n, position_y n))
         (filter (\<lambda>n. \<not> truthy (attachedTo n)) nodes)"

text \<open>
  The nodes once React has rendered the deletion: the effect runs again when its
  dependency differs from the one of the render before.
\<close>

definition nodes_after_delete :: "string \<Rightarrow> node list \<Rightarrow> node list" where
  "nodes_after_delete nodeId nds =
     (let nds' = deleteNode_nodes nodeId nds
      in if syncDependency nds' \<noteq> syncDependency nds then syncAttachedImages nds' else nds')"

section \<open>Auto-layout: the rows\<close>

text \<open>
  The part of \<open>toggleAllExpanded\<close> that assigns rows. The first pass only rewrites
  \<open>isExpanded\<close> and \<open>style\<close>, so the partition reads the same \<open>type\<close> and \<open>parentNode\<close>
  from the nodes as they are.
\<close>

definition nonChildNodes :: "node list \<Rightarrow> node list" where
  "nonChildNodes nodes =
     filter (\<lambda>n. \<not> truthy (parentNode n) \<and> node_type n \<noteq> GroupNode) nodes"

text \<open>
  The callback of \<open>edges.forEach\<close>: the state is the pair of the objects \<open>outgoing\<close> and
  \<open>incoming\<close>.
\<close>

definition graph_edge ::
  "edge \<Rightarrow> (string \<times> string list) list \<times> (string \<times> string list) list
     \<Rightarrow> error + (string \<times> string list) list \<times> (string \<times> string list) list" where
  "graph_edge edge st =
     (case st of (outgoing, incoming) \<Rightarrow>
        (case push_to (source edge) (target edge) outgoing of
           Inl err \<Rightarrow> Inl err
         | Inr outgoing' \<Rightarrow>
             (case push_to (target edge) (source edge) incoming of
                Inl err \<Rightarrow> Inl err
              | Inr incoming' \<Rightarrow> Inr (outgoing', incoming'))))"

definition layout_graph ::
  "edge list \<Rightarrow> error + (string \<times> string list) list \<times> (string \<times> string list) list" where
  "layout_graph es = forEach graph_edge es ([], [])"

text \<open>
  \<open>!incoming[n.id] || incoming[n.id].length === 0\<close>: an inherited function is truthy and
  its \<open>length\<close> is the number of its parameters; the inherited prototype object is truthy
  and has no \<open>length\<close>.
\<close>

definition layout_roots :: "node list \<Rightarrow> (string \<times> string list) list \<Rightarrow> node list" where
  "layout_roots nodes incoming =
     filter (\<lambda>n. case get_property incoming (node_id n) of
                   Undefined \<Rightarrow> True
                 | Own sources \<Rightarrow> sources = []
                 | Inherited m \<Rightarrow>
                     (case m of NativeFunction name len \<Rightarrow> len = 0 | PrototypeObject \<Rightarrow> False))
            (nonChildNodes nodes)"

text \<open>
  \<open>nodeToRow[k] = r\<close>: the assignment of a number to \<open>__proto__\<close> reaches the accessor of
  the prototype, which ignores a value that is not an object.
\<close>

definition assign_row :: "string \<Rightarrow> nat \<Rightarrow> (string \<times> nat) list \<Rightarrow> (string \<times> nat) list" where
  "assign_row k r nodeToRow = (if k = ''__proto__'' then nodeToRow else set_property k r nodeToRow)"

text \<open>
  The body of \<open>targets.forEach\<close>: the state is the \<open>visited\<close> Set, \<open>nextRowNodes\<close> and
  \<open>nodeToRow\<close>.
\<close>

type_synonym row_state = "string set \<times> string list \<times> (string \<times> nat) list"

definition admit ::
  "(string \<times> string list) list \<Rightarrow> nat \<Rightarrow> string \<Rightarrow> row_state \<Rightarrow> error + row_state" where
  "admit incoming currentRow targetId st =
     (case st of (visited, nextRowNodes, nodeToRow) \<Rightarrow>
        if targetId \<notin> visited then
          (case connected incoming targetId of
             Inl err \<Rightarrow> Inl err
           | Inr sources \<Rightarrow>
               (if (\<forall>s \<in> set sources. s \<in> visited) then
                  Inr (insert targetId visited, nextRowNodes @ [targetId],
                       assign_row targetId (currentRow + 1) nodeToRow)
                else Inr st))
        else Inr st)"

text \<open>The callback of \<open>rows[currentRow].forEach\<close>, and that loop.\<close>

definition expand_node ::
  "(string \<times> string list) list \<Rightarrow> (string \<times> string list) list \<Rightarrow> nat \<Rightarrow> string
     \<Rightarrow> row_state \<Rightarrow> error + row_state" where
  "expand_node outgoing incoming currentRow nodeId st =
     (case connected outgoing nodeId of
        Inl err \<Rightarrow> Inl err
      | Inr targets \<Rightarrow> forEach (admit incoming currentRow) targets st)"

definition process_row ::
  "(string \<times> string list) list \<Rightarrow> (string \<times> string list) list \<Rightarrow> nat \<Rightarrow> string list
     \<Rightarrow> row_state \<Rightarrow> error + row_state" where
  "process_row outgoing incoming currentRow row st =
     forEach (expand_node outgoing incoming currentRow) row st"

lemma admit_grows:
  assumes "admit inc r t (v, nx, m) = Inr (v', nx', m')"
  shows "\<exists>added. nx' = nx @ added \<and> v' = v \<union> set added \<and> set added \<inter> v = {}
           \<and> set added \<subseteq> {t}"
  using assms by (auto simp: admit_def split: if_splits sum.splits)

lemma forEach_admit_grows:
  assumes "forEach (admit inc r) ts (v, nx, m) = Inr (v', nx', m')"
  shows "\<exists>added. nx' = nx @ added \<and> v' = v \<union> set added \<and> set added \<inter> v = {}
           \<and> set added \<subseteq> set ts"
  using assms
proof (induction ts arbitrary: v nx m)
  case Nil
  then show ?case by simp
next
  case (Cons t ts)
  from Cons.prems obtain st1 where a0: "admit inc r t (v, nx, m) = Inr st1"
    by (cases "admit inc r t (v, nx, m)") auto
  obtain v1 nx1 m1 where st1: "st1 = (v1, nx1, m1)"
    by (cases st1) auto
  note a = a0[unfolded st1]
  from admit_grows[OF a] obtain a1 where
    a1: "nx1 = nx @ a1" "v1 = v \<union> set a1" "set a1 \<inter> v = {}" "set a1 \<subseteq> {t}"
    by blast
  from Cons.prems a have "forEach (admit inc r) ts (v1, nx1, m1) = Inr (v', nx', m')"
    by simp
  from Cons.IH[OF this] obtain a2 where
    a2: "nx' = nx1 @ a2" "v' = v1 \<union> set a2" "set a2 \<inter> v1 = {}" "set a2 \<subseteq> set ts"
    by blast
  show ?case
    by (rule exI[of _ "a1 @ a2"]) (use a1 a2 in auto)
qed

lemma process_row_grows:
  assumes "process_row out inc r row (v, nx, m) = Inr (v', nx', m')"
  shows "\<exists>added. nx' = nx @ added \<and> v' = v \<union> set added \<and> set added \<inter> v = {}
           \<and> set added \<subseteq> (\<Union>p \<in> set out. set (snd p))"
  using assms
proof (induction row arbitrary: v nx m)
  case Nil
  then show ?case by (simp add: process_row_def)
next
  case (Cons n row)
  from Cons.prems obtain st1 where a0: "expand_node out inc r n (v, nx, m) = Inr st1"
    by (cases "expand_node out inc r n (v, nx, m)") (auto simp: process_row_def)
  obtain v1 nx1 m1 where st1: "st1 = (v1, nx1, m1)"
    by (cases st1) auto
  from a0 obtain targets where
    t: "connected out n = Inr targets"
    and a: "forEach (admit inc r) targets (v, nx, m) = Inr (v1, nx1, m1)"
    unfolding st1 by (auto simp: expand_node_def split: sum.splits)
  from forEach_admit_grows[OF a] connected_own[OF t] obtain a1 where
    a1: "nx1 = nx @ a1" "v1 = v \<union> set a1" "set a1 \<inter> v = {}"
        "set a1 \<subseteq> (\<Union>p \<in> set out. set (snd p))"
    by blast
  from Cons.prems a0 st1 have "process_row out inc r row (v1, nx1, m1) = Inr (v', nx', m')"
    by (simp add: process_row_def)
  from Cons.IH[OF this] obtain a2 where
    a2: "nx' = nx1 @ a2" "v' = v1 \<union> set a2" "set a2 \<inter> v1 = {}"
        "set a2 \<subseteq> (\<Union>p \<in> set out. set (snd p))"
    by blast
  show ?case
    by (rule exI[of _ "a1 @ a2"]) (use a1 a2 in auto)
qed

text \<open>
  The \<open>while (currentRow < rows.length)\<close> loop; it returns \<open>rows\<close>, \<open>visited\<close> and
  \<open>nodeToRow\<close> as they are when it ends.
\<close>

function layer_loop ::
  "(string \<times> string list) list \<Rightarrow> (string \<times> string list) list \<Rightarrow> nat \<Rightarrow> string list list
     \<Rightarrow> string set \<Rightarrow> (string \<times> nat) list
     \<Rightarrow> error + string list list \<times> string set \<times> (string \<times> nat) list" where
  "layer_loop outgoing incoming currentRow rows visited nodeToRow =
     (if currentRow < length rows then
        (case process_row outgoing incoming currentRow (rows ! currentRow)
                (visited, [], nodeToRow) of
           Inl err \<Rightarrow> Inl err
         | Inr st \<Rightarrow>
             (let nextRowNodes = fst (snd st)
              in layer_loop outgoing incoming (currentRow + 1)
                   (if nextRowNodes \<noteq> [] then rows @ [nextRowNodes] else rows)
                   (fst st) (snd (snd st))))
      else Inr (rows, visited, nodeToRow))"
  by pat_completeness auto
termination
proof (relation "measures [\<lambda>(outgoing, incoming, currentRow, rows, visited, nodeToRow).
                              card ((\<Union>p \<in> set outgoing. set (snd p)) - visited),
                           \<lambda>(outgoing, incoming, currentRow, rows, visited, nodeToRow).
                              length rows - currentRow]",
       goal_cases)
  case 1
  show ?case by simp
next
  case (2 outgoing incoming currentRow rows visited nodeToRow st nextRowNodes)
  obtain v' nx' m' where st: "st = (v', nx', m')"
    by (cases st) auto
  have nx: "nextRowNodes = nx'"
    using 2(3) st by simp
  have "process_row outgoing incoming currentRow (rows ! currentRow)
          (visited, [], nodeToRow) = Inr (v', nx', m')"
    using 2(2) st by simp
  from process_row_grows[OF this] have
    g: "v' = visited \<union> set nx'" "set nx' \<inter> visited = {}"
       "set nx' \<subseteq> (\<Union>p \<in> set outgoing. set (snd p))"
    by auto
  let ?T = "\<Union>p \<in> set outgoing. set (snd p)"
  show ?case
  proof (cases "nx' = []")
    case True
    then have "v' = visited"
      using g(1) by simp
    with True 2(1) show ?thesis
      unfolding st nx by simp
  next
    case False
    then obtain x where x: "x \<in> set nx'"
      by (cases nx') auto
    have "?T - v' \<subset> ?T - visited"
      using g x by auto
    then have "card (?T - v') < card (?T - visited)"
      by (intro psubset_card_mono) auto
    then show ?thesis
      unfolding st nx by simp
  qed
qed

text \<open>The body of the last \<open>nonChildNodes.forEach\<close>: a node not yet visited gets a
  row of its own.\<close>

definition add_unvisited ::
  "string set \<Rightarrow> node \<Rightarrow> string list list \<times> (string \<times> nat) list
     \<Rightarrow> string list list \<times> (string \<times> nat) list" where
  "add_unvisited visited node st =
     (case st of (rows, nodeToRow) \<Rightarrow>
        if node_id node \<notin> visited then
          (rows @ [[node_id node]],
           assign_row (node_id node) (length (rows @ [[node_id node]]) - 1) nodeToRow)
        else st)"

text \<open>
  \<open>rows\<close> and \<open>nodeToRow\<close> as the layout pass then reads them, or the exception that
  ends the updater.
\<close>

definition layoutRows ::
  "node list \<Rightarrow> edge list \<Rightarrow> error + string list list \<times> (string \<times> nat) list" where
  "layoutRows nodes es =
     (case layout_graph es of
        Inl err \<Rightarrow> Inl err
      | Inr (outgoing, incoming) \<Rightarrow>
          (let rts = layout_roots nodes incoming;
               start = (if rts \<noteq> [] then
                          ([map node_id rts], set (map node_id rts),
                           fold (\<lambda>n nodeToRow. assign_row (node_id n) 0 nodeToRow) rts [])
                        else ([], {}, []))
           in case layer_loop outgoing incoming 0 (fst start) (fst (snd start)) (snd (snd start)) of
                Inl err \<Rightarrow> Inl err
              | Inr looped \<Rightarrow>
                  Inr (fold (add_unvisited (fst (snd looped))) (nonChildNodes nodes)
                         (fst looped, snd (snd looped)))))"

section \<open>Edge routing\<close>

text \<open>
  \<open>getSmartPath\<close> returns an SVG path string; the model keeps its commands and their
  numbers. \<open>MoveTo x y\<close> is \<open>M x y\<close>, \<open>QuadTo cx cy x y\<close> is \<open>Q cx cy x y\<close> and
  \<open>CubicTo\<close> is \<open>C\<close> with its two control points and its end point.
\<close>

datatype Position = Left | Top | Right | Bottom

datatype path_command =
    MoveTo real real
  | QuadTo real real real real
  | CubicTo real real real real real real

definition getSmartPath ::
  "real \<Rightarrow> real \<Rightarrow> real \<Rightarrow> real \<Rightarrow> Position \<Rightarrow> Position \<Rightarrow> path_command list" where
  "getSmartPath sourceX sourceY targetX targetY sourcePosition targetPosition =
     (let deltaX = targetX - sourceX;
          deltaY = targetY - sourceY;
          distance = sqrt (deltaX * deltaX + deltaY * deltaY);
          isBackwards = (sourcePosition = Bottom \<and> targetPosition = Top \<and> deltaY < 0);
          isSameLevel = (\<bar>deltaY\<bar> < 50);
          isVeryClose = (distance < 100)
      in if isVeryClose then
           (let midX = (sourceX + targetX) / 2;
                midY = (sourceY + targetY) / 2;
                offset = max 30 (distance * 0.3);
                curveX = midX + (if deltaX > 0 then - offset else offset)
            in [MoveTo sourceX sourceY, QuadTo curveX midY targetX targetY])
         else if isBackwards then
           (let absDistance = \<bar>deltaY\<bar>;
                horizontalOffset = max 80 (min 150 (absDistance * 0.5));
                verticalPadding = max 40 (absDistance * 0.2);
                routeRight = (deltaX \<ge> 0);
                sideX = (if routeRight then max sourceX targetX + horizontalOffset
                         else min sourceX targetX - horizontalOffset)
            in [MoveTo sourceX sourceY,
                CubicTo sourceX (sourceY + verticalPadding) sideX (sourceY + verticalPadding)
                        sideX ((sourceY + targetY) / 2),
                CubicTo sideX (targetY - verticalPadding) targetX (targetY - verticalPadding)
                        targetX targetY])
         else if isSameLevel then
           (let arcHeight = max 60 (\<bar>deltaX\<bar> * 0.3);
                midX = (sourceX + targetX) / 2;
                arcY = max sourceY targetY + arcHeight
            in [MoveTo sourceX sourceY, QuadTo midX arcY targetX targetY])
         else
           (let curvature = min (distance * 0.25) 60;
                controlY1 = sourceY + curvature;
                controlY2 = targetY - curvature
            in [MoveTo sourceX sourceY,
                CubicTo sourceX controlY1 targetX controlY2 targetX targetY]))"

section \<open>Creating nodes and edges\<close>

text \<open>
  Ids are built from \<open>Date.now()\<close> and \<open>Math.random()\<close>. Both are inputs of the model:
  the clock reading is a natural number and is printed in decimal, as a template
  literal prints it.
\<close>

definition digit_char :: "nat \<Rightarrow> char" where
  "digit_char d = ''0123456789'' ! d"

fun show_nat :: "nat \<Rightarrow> string" where
  "show_nat n = (if n < 10 then [digit_char n] else show_nat (n div 10) @ [digit_char (n mod 10)])"

declare show_nat.simps [simp del]

definition new_node_id :: "nat \<Rightarrow> string" where
  "new_node_id now = ''node-'' @ show_nat now"

text \<open>
  \<open>addNode\<close>: \<open>now\<close> is the reading of \<open>Date.now()\<close> and \<open>contextMenu\<close> the projected
  position of the open context menu, \<open>None\<close> when there is none (the function then
  returns at once). \<open>nodeConfigs[type] || nodeConfigs.prompt\<close> gives an image the prompt
  configuration. The empty \<open>childNodes\<close> array of a new group has no field in the record.
\<close>

definition addNode :: "nat \<Rightarrow> (real \<times> real) option \<Rightarrow> node_type \<Rightarrow> string \<Rightarrow> node list \<Rightarrow> node list" where
  "addNode now contextMenu type col nds =
     (case contextMenu of
        None \<Rightarrow> nds
      | Some pos \<Rightarrow>
          (let blank = \<lparr>node_id = new_node_id now, node_type = type,
                         position_x = fst pos, position_y = snd pos,
                         parentNode = None, extent = None, hidden = None,
                         style_width = None, style_height = None, selected = None,
                         title = None, content = None, template = None,
                         template_values = None, isExpanded = None, color = Some col,
                         attachedTo = None, anchorPoint = None,
                         offset_x = None, offset_y = None\<rparr>;
               newNode =
                 (if type = TemplateNode then
                    blank\<lparr>title := Some ''Template'',
                          template := Some ''Take the first image on Row {{row}} Column {{column}} - {{description}}'',
                          template_values := Some [], isExpanded := Some True,
                          style_width := Some 320, style_height := Some 220\<rparr>
                  else if type = GroupNode then
                    blank\<lparr>title := Some ''New Group'', content := Some [],
                          isExpanded := Some False\<rparr>
                  else
                    blank\<lparr>title := Some ''New Prompt'', content := Some ''Your prompt here...'',
                          isExpanded := Some True,
                          style_width := Some 240, style_height := Some 140\<rparr>)
           in nds @ [newNode]))"

definition colorOptions :: "string list" where
  "colorOptions = [''purple'', ''blue'', ''cyan'', ''green'', ''yellow'', ''orange'', ''pink'']"

text \<open>\<open>x || "purple"\<close> for an optional colour name.\<close>

definition color_or_purple :: "string option \<Rightarrow> string" where
  "color_or_purple c = (case c of None \<Rightarrow> ''purple'' | Some v \<Rightarrow> (if v = [] then ''purple'' else v))"

text \<open>
  \<open>availableColors[Math.floor(Math.random() * availableColors.length)]\<close>, with \<open>rnd\<close>
  the random number drawn; an index outside the array reads \<open>undefined\<close>.
\<close>

definition pick_color :: "real \<Rightarrow> string \<Rightarrow> string option" where
  "pick_color rnd currentColor =
     (let availableColors = filter (\<lambda>c. c \<noteq> currentColor) colorOptions;
          i = \<lfloor>rnd * real (length availableColors)\<rfloor>
      in if 0 \<le> i \<and> nat i < length availableColors then Some (availableColors ! nat i) else None)"

text \<open>
  \<open>newColor\<close> as the \<open>setNodes\<close> updater of \<open>duplicateNode\<close> leaves it: still
  \<open>"purple"\<close> when the node is not found.
\<close>

definition duplicate_color :: "real \<Rightarrow> string \<Rightarrow> node list \<Rightarrow> string option" where
  "duplicate_color rnd nodeId currentNodes =
     (case find (\<lambda>n. node_id n = nodeId) currentNodes of
        None \<Rightarrow> Some ''purple''
      | Some originalNode \<Rightarrow> pick_color rnd (color_or_purple (color originalNode)))"

definition duplicateNode_nodes :: "nat \<Rightarrow> real \<Rightarrow> string \<Rightarrow> node list \<Rightarrow> node list" where
  "duplicateNode_nodes now rnd nodeId currentNodes =
     (case find (\<lambda>n. node_id n = nodeId) currentNodes of
        None \<Rightarrow> currentNodes
      | Some originalNode \<Rightarrow>
          currentNodes @
            [originalNode\<lparr>node_id := new_node_id now,
                          position_x := position_x originalNode + 50,
                          position_y := position_y originalNode + 50,
                          color := pick_color rnd (color_or_purple (color originalNode)),
                          selected := Some False\<rparr>])"

text \<open>
  The id of the \<open>i\<close>-th duplicated edge: \<open>edgeNow i\<close> is the clock reading and
  \<open>edgeRnd i\<close> the nine characters taken from the random number, both drawn anew for
  each edge.
\<close>

definition new_edge_id :: "nat \<Rightarrow> string \<Rightarrow> string" where
  "new_edge_id now rnd = ''edge-'' @ show_nat now @ ''-'' @ rnd"

definition touching :: "string \<Rightarrow> edge list \<Rightarrow> edge list" where
  "touching nodeId currentEdges =
     filter (\<lambda>e. source e = nodeId \<or> target e = nodeId) currentEdges"

definition duplicateNode_edges ::
  "nat \<Rightarrow> string option \<Rightarrow> (nat \<Rightarrow> nat) \<Rightarrow> (nat \<Rightarrow> string) \<Rightarrow> string \<Rightarrow> edge list \<Rightarrow> edge list" where
  "duplicateNode_edges now newColor edgeNow edgeRnd nodeId currentEdges =
     currentEdges @
       map (\<lambda>(i, e). e\<lparr>edge_id := new_edge_id (edgeNow i) (edgeRnd i),
                        source := (if source e = nodeId then new_node_id now else source e),
                        target := (if target e = nodeId then new_node_id now else target e),
                        edge_color := newColor\<rparr>)
           (enumerate 0 (touching nodeId currentEdges))"

definition duplicateNode ::
  "nat \<Rightarrow> real \<Rightarrow> (nat \<Rightarrow> nat) \<Rightarrow> (nat \<Rightarrow> string) \<Rightarrow> string \<Rightarrow> sheet \<Rightarrow> sheet" where
  "duplicateNode now rnd edgeNow edgeRnd nodeId sh =
     \<lparr>sheet_nodes = duplicateNode_nodes now rnd nodeId (sheet_nodes sh),
      sheet_edges = duplicateNode_edges now (duplicate_color rnd nodeId (sheet_nodes sh))
                      edgeNow edgeRnd nodeId (sheet_edges sh)\<rparr>"

text \<open>
  \<open>onConnect\<close> hands the connection, with \<open>type: "custom"\<close> and \<open>data: { color }\<close>, to
  React Flow's \<open>addEdge\<close>. That function belongs to the library: it is a parameter
  here, and \<open>eid\<close> is the id the library gives the connection. The object has no
  \<open>active\<close> field.
\<close>

definition connection :: "node list \<Rightarrow> string \<Rightarrow> string \<Rightarrow> string \<Rightarrow> edge" where
  "connection nodes eid src tgt =
     \<lparr>edge_id = eid, source = src, target = tgt, edge_type = Some ''custom'',
      edge_color = Some (case find (\<lambda>n. node_id n = src) nodes of
                           None \<Rightarrow> ''purple''
                         | Some sourceNode \<Rightarrow> color_or_purple (color sourceNode)),
      active = None\<rparr>"

definition onConnect ::
  "(edge \<Rightarrow> edge list \<Rightarrow> edge list) \<Rightarrow> node list \<Rightarrow> string \<Rightarrow> string \<Rightarrow> string \<Rightarrow> edge list \<Rightarrow> edge list" where
  "onConnect addEdge nodes eid src tgt eds = addEdge (connection nodes eid src tgt) eds"

text \<open>A sequence of creations, each with the clock readings and random draws it met.\<close>

datatype creation =
    AddNode nat "(real \<times> real) option" node_type string
  | DuplicateNode nat real "nat \<Rightarrow> nat" "nat \<Rightarrow> string" string
  | Connect string string string

fun create :: "(edge \<Rightarrow> edge list \<Rightarrow> edge list) \<Rightarrow> sheet \<Rightarrow> creation \<Rightarrow> sheet" where
  "create addEdge sh (AddNode now contextMenu type col) =
     sh\<lparr>sheet_nodes := addNode now contextMenu type col (sheet_nodes sh)\<rparr>"
| "create addEdge sh (DuplicateNode now rnd edgeNow edgeRnd nodeId) =
     duplicateNode now rnd edgeNow edgeRnd nodeId sh"
| "create addEdge sh (Connect eid src tgt) =
     sh\<lparr>sheet_edges := onConnect addEdge (sheet_nodes sh) eid src tgt (sheet_edges sh)\<rparr>"

definition unique_ids :: "sheet \<Rightarrow> bool" where
  "unique_ids sh = (distinct (map node_id (sheet_nodes sh)) \<and> distinct (map edge_id (sheet_edges sh)))"

text \<open>
  The clock readings that a creation turns into node ids on a given sheet, and the pairs
  of a clock reading and a random suffix that it turns into edge ids.
\<close>

fun node_stamps :: "sheet \<Rightarrow> creation \<Rightarrow> nat list" where
  "node_stamps sh (AddNode now contextMenu type col) =
     (case contextMenu of None \<Rightarrow> [] | Some pos \<Rightarrow> [now])"
| "node_stamps sh (DuplicateNode now rnd edgeNow edgeRnd nodeId) =
     (case find (\<lambda>n. node_id n = nodeId) (sheet_nodes sh) of
        None \<Rightarrow> []
      | Some originalNode \<Rightarrow> [now])"
| "node_stamps sh (Connect eid src tgt) = []"

fun edge_stamps :: "sheet \<Rightarrow> creation \<Rightarrow> (nat \<times> string) list" where
  "edge_stamps sh (AddNode now contextMenu type col) = []"
| "edge_stamps sh (DuplicateNode now rnd edgeNow edgeRnd nodeId) =
     map (\<lambda>i. (edgeNow i, edgeRnd i)) [0 ..< length (touching nodeId (sheet_edges sh))]"
| "edge_stamps sh (Connect eid src tgt) = []"

text \<open>The same for a sequence of creations, each met on the sheet the ones before left.\<close>

fun run_node_stamps :: "(edge \<Rightarrow> edge list \<Rightarrow> edge list) \<Rightarrow> sheet \<Rightarrow> creation list \<Rightarrow> nat list" where
  "run_node_stamps addEdge sh [] = []"
| "run_node_stamps addEdge sh (c # cs) =
     node_stamps sh c @ run_node_stamps addEdge (create addEdge sh c) cs"

fun run_edge_stamps ::
  "(edge \<Rightarrow> edge list \<Rightarrow> edge list) \<Rightarrow> sheet \<Rightarrow> creation list \<Rightarrow> (nat \<times> string) list" where
  "run_edge_stamps addEdge sh [] = []"
| "run_edge_stamps addEdge sh (c # cs) =
     edge_stamps sh c @ run_edge_stamps addEdge (create addEdge sh c) cs"

text \<open>The ids under which the library is to add the connections of a sequence.\<close>

fun connect_ids :: "creation list \<Rightarrow> string list" where
  "connect_ids [] = []"
| "connect_ids (Connect eid src tgt # cs) = eid # connect_ids cs"
| "connect_ids (c # cs) = connect_ids cs"

text \<open>
  What is assumed of the library: at each connection of the sequence \<open>addEdge\<close> either
  leaves the edges alone or adds the connection at the end, under an id no edge has.
\<close>

fun library_adds :: "(edge \<Rightarrow> edge list \<Rightarrow> edge list) \<Rightarrow> sheet \<Rightarrow> creation list \<Rightarrow> bool" where
  "library_adds addEdge sh [] = True"
| "library_adds addEdge sh (Connect eid src tgt # cs) =
     ((let e = connection (sheet_nodes sh) eid src tgt
       in addEdge e (sheet_edges sh) = sheet_edges sh
          \<or> (addEdge e (sheet_edges sh) = sheet_edges sh @ [e]
             \<and> eid \<notin> set (map edge_id (sheet_edges sh))))
      \<and> library_adds addEdge (create addEdge sh (Connect eid src tgt)) cs)"
| "library_adds addEdge sh (c # cs) = library_adds addEdge (create addEdge sh c) cs"

section \<open>The wording of the specification\<close>

text \<open>
  The traversal in the words of the specification. The adjacency holds the active edges
  only: the successors of an id are the targets of the active edges that leave it, in the
  order of the edge array.
\<close>

definition active_successors :: "edge list \<Rightarrow> string \<Rightarrow> string list" where
  "active_successors edges i = map target (filter (\<lambda>e. isActive e \<and> source e = i) edges)"

text \<open>
  Breadth first, with a visited set: the traversal goes level by level. Of the ids
  offered to a level, those already seen are dropped, and so is every repetition of an
  id within the level; what remains is visited in the order offered. The next level is
  offered the successors of the ids just visited, in that order.
\<close>

fun fresh :: "string set \<Rightarrow> string list \<Rightarrow> string list" where
  "fresh seen [] = []"
| "fresh seen (i # level) =
     (if i \<in> seen then fresh seen level else i # fresh (insert i seen) level)"

lemma set_fresh: "set (fresh seen level) = set level - seen"
  by (induction level arbitrary: seen) auto

lemma active_successors_targets:
  "set (active_successors edges i) \<subseteq> set (map target edges)"
  by (auto simp: active_successors_def)

function breadth_first_order :: "edge list \<Rightarrow> string set \<Rightarrow> string list \<Rightarrow> string list" where
  "breadth_first_order edges seen level =
     (let row = fresh seen level
      in if row = [] then []
         else row @ breadth_first_order edges (seen \<union> set row)
                      (concat (map (active_successors edges) row)))"
  by pat_completeness auto
termination
proof (relation "measure (\<lambda>(edges, seen, level).
                    card ((set level \<union> set (map target edges)) - seen))", goal_cases)
  case 1
  show ?case by simp
next
  case (2 edges seen level row)
  let ?T = "set (map target edges)"
  let ?next = "concat (map (active_successors edges) row)"
  have row: "set row = set level - seen"
    using 2(1) by (simp add: set_fresh)
  from 2(2) obtain x where x: "x \<in> set row"
    by (cases row) auto
  have "set ?next \<subseteq> ?T"
    using active_successors_targets by fastforce
  then have "(set ?next \<union> ?T) - (seen \<union> set row) \<subset> (set level \<union> ?T) - seen"
    using row x by auto
  then have "card ((set ?next \<union> ?T) - (seen \<union> set row)) < card ((set level \<union> ?T) - seen)"
    by (intro psubset_card_mono) auto
  then show ?case by simp
qed

declare breadth_first_order.simps [simp del]

text \<open>
  Each visited id contributes the first node that carries it, unless there is none or it
  is a group.
\<close>

definition contributing_nodes :: "node list \<Rightarrow> string list \<Rightarrow> node list" where
  "contributing_nodes nodes ids =
     concat (map (\<lambda>i. case find (\<lambda>n. node_id n = i) nodes of
                         None \<Rightarrow> []
                       | Some n \<Rightarrow> (if node_type n \<noteq> GroupNode then [n] else [])) ids)"

text \<open>
  The same order computed with a single queue, as the loop of the source keeps it: an id
  is taken from the front, skipped when it is visited already, and otherwise visited, its
  successors that are not visited going to the back of the queue.
\<close>

function queue_order :: "edge list \<Rightarrow> string set \<Rightarrow> string list \<Rightarrow> string list" where
  "queue_order edges visited [] = []"
| "queue_order edges visited (i # queue) =
     (if i \<in> visited then queue_order edges visited queue
      else i # queue_order edges (insert i visited)
                 (queue @ filter (\<lambda>t. t \<notin> insert i visited) (active_successors edges i)))"
  by pat_completeness auto
termination
proof (relation "measures [\<lambda>(edges, visited, queue).
                             card ((set queue \<union> set (map target edges)) - visited),
                           \<lambda>(edges, visited, queue). length queue]", goal_cases)
  case 1
  show ?case by simp
next
  case (2 edges visited i queue)
  have "card ((set queue \<union> set (map target edges)) - visited)
          \<le> card ((set (i # queue) \<union> set (map target edges)) - visited)"
    by (rule card_mono) auto
  then show ?case by auto
next
  case (3 edges visited i queue)
  let ?T = "set (map target edges)"
  let ?q = "queue @ filter (\<lambda>t. t \<notin> insert i visited) (active_successors edges i)"
  have "(set ?q \<union> ?T) - insert i visited \<subset> (set (i # queue) \<union> ?T) - visited"
    using 3 active_successors_targets[of edges i] by auto
  then have "card ((set ?q \<union> ?T) - insert i visited) < card ((set (i # queue) \<union> ?T) - visited)"
    by (intro psubset_card_mono) auto
  then show ?case by simp
qed


text \<open>
  The combined text in the words of the specification: the contributions that are not
  the empty string, joined with a blank line.
\<close>

definition nonempty_contributions_text :: "node list \<Rightarrow> string" where
  "nonempty_contributions_text orderedNodes =
     join [CHR 0x0A, CHR 0x0A] (filter (\<lambda>c. c \<noteq> []) (map node_text orderedNodes))"

text \<open>
  The distance between the end points, and the claim that the control point
  \<open>(cx, cy)\<close> is their midpoint moved by \<open>amount\<close> at a right angle to the line from
  the source to the target.
\<close>

definition endpoint_distance :: "real \<Rightarrow> real \<Rightarrow> real \<Rightarrow> real \<Rightarrow> real" where
  "endpoint_distance sx sy tx ty = sqrt ((tx - sx) * (tx - sx) + (ty - sy) * (ty - sy))"

definition perpendicular_shift ::
  "real \<Rightarrow> real \<Rightarrow> real \<Rightarrow> real \<Rightarrow> real \<Rightarrow> real \<Rightarrow> real \<Rightarrow> bool" where
  "perpendicular_shift sx sy tx ty cx cy amount =
     ((cx - (sx + tx) / 2) * (tx - sx) + (cy - (sy + ty) / 2) * (ty - sy) = 0
      \<and> sqrt ((cx - (sx + tx) / 2) * (cx - (sx + tx) / 2)
               + (cy - (sy + ty) / 2) * (cy - (sy + ty) / 2)) = amount)"

section \<open>Templates cut at their placeholders\<close>

text \<open>
  A template read from the left as the pattern reads it: the placeholders it matches
  and the characters between them. \<open>fill\<close> writes it out again with a text for every
  placeholder.
\<close>

datatype segment = Text char | Hole string


definition fill :: "(string \<Rightarrow> string) \<Rightarrow> segment list \<Rightarrow> string" where
  "fill f segs = concat (map (\<lambda>seg. case seg of Text c \<Rightarrow> [c] | Hole key \<Rightarrow> f key) segs)"


section \<open>Sample sheets\<close>

text \<open>Small nodes and edges for the worked examples.\<close>

definition sample_node :: "string \<Rightarrow> node_type \<Rightarrow> string \<Rightarrow> node" where
  "sample_node i ty c =
     \<lparr>node_id = i, node_type = ty, position_x = 0, position_y = 0,
      parentNode = None, extent = None, hidden = None,
      style_width = None, style_height = None, selected = None,
      title = None, content = Some c, template = None, template_values = None,
      isExpanded = None, color = None, attachedTo = None, anchorPoint = None,
      offset_x = None, offset_y = None\<rparr>"

definition sample_edge :: "string \<Rightarrow> string \<Rightarrow> string \<Rightarrow> bool option \<Rightarrow> edge" where
  "sample_edge i s t a =
     \<lparr>edge_id = i, source = s, target = t, edge_type = Some ''custom'',
      edge_color = None, active = a\<rparr>"

definition sample_branch_edges :: "edge list" where
  "sample_branch_edges = [sample_edge ''e1'' ''A'' ''B'' None, sample_edge ''e2'' ''A2'' ''B'' None,
          sample_edge ''e3'' ''C'' ''D'' (Some True)]"

definition sample_path_nodes :: "node list" where
  "sample_path_nodes =
     [sample_node ''A'' PromptNode '' '',
      (sample_node ''B'' TemplateNode [])\<lparr>template := Some ''Hi {{name}}''\<rparr>,
      sample_node ''C'' PromptNode ''Other'']"

definition sample_path_edges :: "edge list" where
  "sample_path_edges =
     [sample_edge ''e1'' ''A'' ''B'' None, sample_edge ''e2'' ''C'' ''B'' (Some False)]"

definition sample_group_sheet :: sheet where
  "sample_group_sheet =
     \<lparr>sheet_nodes =
        [(sample_node ''G'' GroupNode [])\<lparr>position_x := 100, position_y := 200\<rparr>,
         (sample_node ''A'' PromptNode ''Hello'')
            \<lparr>position_x := 20, position_y := 60, parentNode := Some ''G'',
             extent := Some ''parent''\<rparr>,
         (sample_node ''B'' PromptNode ''World'')\<lparr>position_x := 5, position_y := 7\<rparr>],
      sheet_edges =
        [sample_edge ''e1'' ''A'' ''B'' None, sample_edge ''e2'' ''G'' ''B'' None,
         sample_edge ''e3'' ''B'' ''G'' None]\<rparr>"

definition sample_attached_nodes :: "node list" where
  "sample_attached_nodes =
     [sample_node ''P'' PromptNode ''Hello'',
      (sample_node ''I'' ImageNode [])\<lparr>attachedTo := Some ''P'', position_x := 300\<rparr>,
      (sample_node ''J'' ImageNode [])\<lparr>attachedTo := Some ''Q'', position_x := 300\<rparr>,
      sample_node ''Q'' PromptNode ''World'']"

definition sample_layout_nodes :: "node list" where
  "sample_layout_nodes =
     [sample_node ''A'' PromptNode ''a'', sample_node ''B'' PromptNode ''b'',
      sample_node ''C'' PromptNode ''c'']"

definition sample_layout_edges :: "edge list" where
  "sample_layout_edges =
     [sample_edge ''e1'' ''A'' ''B'' None, sample_edge ''e2'' ''A'' ''C'' None,
      sample_edge ''e3'' ''B'' ''C'' None]"

definition sample_layout_edges_reordered :: "edge list" where
  "sample_layout_edges_reordered =
     [sample_edge ''e2'' ''A'' ''C'' None, sample_edge ''e1'' ''A'' ''B'' None,
      sample_edge ''e3'' ''B'' ''C'' None]"

text \<open>React Flow's \<open>addEdge\<close> on a sheet that does not hold the connection yet.\<close>

definition append_edge :: "edge \<Rightarrow> edge list \<Rightarrow> edge list" where
  "append_edge e eds = eds @ [e]"

definition empty_sheet :: sheet where
  "empty_sheet = \<lparr>sheet_nodes = [], sheet_edges = []\<rparr>"

definition sample_creations :: "creation list" where
  "sample_creations =
     [AddNode 7 (Some (0, 0)) PromptNode ''purple'',
      AddNode 8 (Some (10, 10)) TemplateNode ''blue'',
      Connect ''c1'' ''node-7'' ''node-8'',
      DuplicateNode 9 0.5 (\<lambda>i. 9) (\<lambda>i. if i = 0 then ''abc'' else ''xyz'') ''node-7'']"

section \<open>Properties\<close>

subsection \<open>The branch invariant\<close>

lemma count_le_one_iff:
  assumes "distinct (map f xs)"
  shows "length (filter P xs) \<le> 1 \<longleftrightarrow> (\<forall>x \<in> set xs. \<forall>y \<in> set xs. P x \<and> P y \<longrightarrow> f x = f y)"
  using assms
proof (induction xs)
  case Nil
  then show ?case by simp
next
  case (Cons a xs)
  show ?case
  proof (cases "P a")
    case True
    have "length (filter P xs) = 0 \<longleftrightarrow> (\<forall>x \<in> set xs. \<not> P x)"
      by (simp add: filter_empty_conv)
    with True Cons.prems show ?thesis
      by (auto simp: image_iff)
  next
    case False
    with Cons show ?thesis by auto
  qed
qed

lemma toggled_fields:
  "edge_id (toggle_edge eid tgt e) = edge_id e"
  "target (toggle_edge eid tgt e) = target e"
  "source (toggle_edge eid tgt e) = source e"
  "active (toggle_edge eid tgt e) =
     (if target e = tgt \<and> edge_id e \<noteq> eid then Some False
      else if edge_id e = eid then Some True else active e)"
  by (simp_all add: toggle_edge_def)

lemma handleToggleActive_ids [simp]:
  "map edge_id (handleToggleActive eid t es) = map edge_id es"
  by (simp add: handleToggleActive_def toggled_fields)

lemma handleToggleActive_targets [simp]:
  "map target (handleToggleActive eid t es) = map target es"
  by (simp add: handleToggleActive_def toggled_fields)

lemma handleToggleActive_sources [simp]:
  "map source (handleToggleActive eid t es) = map source es"
  by (simp add: handleToggleActive_def toggled_fields)

lemma find_id_distinct:
  assumes "distinct (map edge_id es)" "e \<in> set es"
  shows "find (\<lambda>x. edge_id x = edge_id e) es = Some e"
  using assms by (induction es) (auto simp: image_iff)

lemma setActive_member:
  assumes "distinct (map edge_id es)" "e \<in> set es"
  shows "setActive es (edge_id e) = handleToggleActive (edge_id e) (target e) es"
  using find_id_distinct[OF assms] by (simp add: setActive_def)

lemma setActive_ids [simp]: "map edge_id (setActive es eid) = map edge_id es"
  by (simp add: setActive_def split: option.splits)

lemma branch_inv_iff:
  assumes "distinct (map edge_id es)"
  shows "branch_inv es \<longleftrightarrow>
     (\<forall>x \<in> set es. \<forall>y \<in> set es. target x = target y \<and> active x = Some True \<and> active y = Some True
        \<longrightarrow> edge_id x = edge_id y)"
proof -
  have "branch_inv es \<longleftrightarrow> (\<forall>e \<in> set es. \<forall>x \<in> set es. \<forall>y \<in> set es.
          (target x = target e \<and> active x = Some True) \<and> (target y = target e \<and> active y = Some True)
            \<longrightarrow> edge_id x = edge_id y)"
    unfolding branch_inv_def using count_le_one_iff[OF assms] by simp
  also have "\<dots> \<longleftrightarrow> (\<forall>x \<in> set es. \<forall>y \<in> set es. target x = target y \<and> active x = Some True \<and> active y = Some True
        \<longrightarrow> edge_id x = edge_id y)"
    by metis
  finally show ?thesis .
qed

lemma handleToggleActive_branch_inv:
  assumes d: "distinct (map edge_id es)" and e: "e \<in> set es" and inv: "branch_inv es"
  shows "branch_inv (handleToggleActive (edge_id e) (target e) es)"
proof -
  let ?es' = "handleToggleActive (edge_id e) (target e) es"
  have d': "distinct (map edge_id ?es')" using d by simp
  have uniq: "\<And>x. x \<in> set es \<Longrightarrow> edge_id x = edge_id e \<Longrightarrow> target x = target e"
    using d e by (metis distinct_map inj_onD)
  have old: "\<And>x y. x \<in> set es \<Longrightarrow> y \<in> set es \<Longrightarrow> target x = target y \<Longrightarrow>
      active x = Some True \<Longrightarrow> active y = Some True \<Longrightarrow> edge_id x = edge_id y"
    using inv unfolding branch_inv_iff[OF d] by blast
  have "\<forall>x \<in> set ?es'. \<forall>y \<in> set ?es'. target x = target y \<and> active x = Some True \<and> active y = Some True
        \<longrightarrow> edge_id x = edge_id y"
  proof (intro ballI impI, elim conjE)
    fix x' y'
    assume x': "x' \<in> set ?es'" and y': "y' \<in> set ?es'"
      and t: "target x' = target y'" and ax: "active x' = Some True" and ay: "active y' = Some True"
    from x' obtain x where x: "x \<in> set es" and xe: "x' = toggle_edge (edge_id e) (target e) x"
      by (auto simp: handleToggleActive_def)
    from y' obtain y where y: "y \<in> set es" and ye: "y' = toggle_edge (edge_id e) (target e) y"
      by (auto simp: handleToggleActive_def)
    have txy: "target x = target y"
      using t xe ye by (simp add: toggled_fields)
    show "edge_id x' = edge_id y'"
    proof (cases "target x = target e")
      case True
      then have "edge_id x = edge_id e"
        using ax xe by (simp add: toggled_fields split: if_splits)
      moreover have "edge_id y = edge_id e"
        using ay ye True txy by (simp add: toggled_fields split: if_splits)
      ultimately show ?thesis
        using xe ye by (simp add: toggled_fields)
    next
      case False
      then have xne: "edge_id x \<noteq> edge_id e" using uniq[OF x] by auto
      have yne: "edge_id y \<noteq> edge_id e" using uniq[OF y] False txy by auto
      have "active x = Some True"
        using ax xe False xne by (simp add: toggled_fields)
      moreover have "active y = Some True"
        using ay ye False txy yne by (simp add: toggled_fields)
      ultimately have "edge_id x = edge_id y"
        using old[OF x y txy] by simp
      then show ?thesis
        using xe ye by (simp add: toggled_fields)
    qed
  qed
  then show ?thesis
    using branch_inv_iff[OF d'] by blast
qed

lemma setActive_branch_inv:
  assumes d: "distinct (map edge_id es)" and inv: "branch_inv es"
  shows "branch_inv (setActive es eid)"
proof (cases "find (\<lambda>e. edge_id e = eid) es")
  case None
  then show ?thesis using inv by (simp add: setActive_def)
next
  case (Some e)
  then have "e \<in> set es" "edge_id e = eid"
    by (auto simp: find_Some_iff)
  with handleToggleActive_branch_inv[OF d this(1) inv] Some show ?thesis
    by (simp add: setActive_def)
qed

lemma foldl_setActive_inv:
  assumes "distinct (map edge_id es)" "branch_inv es"
  shows "distinct (map edge_id (foldl setActive es ids)) \<and> branch_inv (foldl setActive es ids)"
  using assms
  by (induction ids arbitrary: es) (auto simp: setActive_branch_inv)

lemma handleToggleActive_nth:
  assumes "i < length es"
  shows "handleToggleActive eid t es ! i =
     (if target (es ! i) = t \<and> edge_id (es ! i) \<noteq> eid then (es ! i)\<lparr>active := Some False\<rparr>
      else if edge_id (es ! i) = eid then (es ! i)\<lparr>active := Some True\<rparr> else es ! i)"
  using assms by (simp add: handleToggleActive_def toggle_edge_def)

lemma filter_eq_single:
  assumes "distinct (map edge_id es)" "e \<in> set es"
  shows "filter (\<lambda>x. edge_id x = edge_id e) es = [e]"
  using assms
proof (induction es)
  case Nil
  then show ?case by simp
next
  case (Cons a es)
  show ?case
  proof (cases "a = e")
    case True
    with Cons.prems have "\<forall>x \<in> set es. edge_id x \<noteq> edge_id e"
      by (auto simp: image_iff)
    with True show ?thesis
      by (simp add: filter_empty_conv)
  next
    case False
    with Cons.prems have "e \<in> set es" "edge_id a \<noteq> edge_id e"
      by (auto simp: image_iff)
    with Cons show ?thesis by simp
  qed
qed

lemma toggled_active_iff:
  "target (toggle_edge eid tgt x) = tgt \<and> isActive (toggle_edge eid tgt x)
     \<longleftrightarrow> edge_id x = eid \<and> target x = tgt"
  by (auto simp: toggle_edge_def isActive_def)

lemma setActive_only_active:
  assumes "distinct (map edge_id es)" "e \<in> set es"
  shows "filter (\<lambda>x. target x = target e \<and> isActive x) (setActive es (edge_id e))
           = [e\<lparr>active := Some True\<rparr>]"
proof -
  have same: "\<And>x. x \<in> set es \<Longrightarrow> edge_id x = edge_id e \<Longrightarrow> target x = target e"
    using assms by (metis distinct_map inj_onD)
  have "filter (\<lambda>x. target x = target e \<and> isActive x) (setActive es (edge_id e))
          = map (toggle_edge (edge_id e) (target e))
                (filter (\<lambda>x. target (toggle_edge (edge_id e) (target e) x) = target e
                             \<and> isActive (toggle_edge (edge_id e) (target e) x)) es)"
    by (simp add: setActive_member[OF assms] handleToggleActive_def filter_map o_def)
  also have "filter (\<lambda>x. target (toggle_edge (edge_id e) (target e) x) = target e
                             \<and> isActive (toggle_edge (edge_id e) (target e) x)) es
               = filter (\<lambda>x. edge_id x = edge_id e) es"
    unfolding toggled_active_iff by (rule filter_cong) (auto dest: same)
  also have "\<dots> = [e]"
    by (rule filter_eq_single[OF assms])
  finally show ?thesis
    by (simp add: toggle_edge_def)
qed

text \<open>
  Claim C1. Edge ids being distinct, a click on the toggle of an edge \<open>e\<close> leaves the
  edge array with \<open>e\<close> carrying \<open>active = true\<close>, every other edge into the target of
  \<open>e\<close> carrying \<open>active = false\<close>, and every remaining edge as it was; of the edges into
  that target, \<open>e\<close> is then the only one that counts as active. Hence, when at most one
  edge into each target carries \<open>active = true\<close>, this is still so after any sequence of
  such clicks.
\<close>

theorem setActive_branch_invariant:
  assumes "distinct (map edge_id es)"
  shows "(\<forall>e \<in> set es.
            length (setActive es (edge_id e)) = length es
          \<and> (\<forall>i < length es.
                 setActive es (edge_id e) ! i =
                   (if es ! i = e then e\<lparr>active := Some True\<rparr>
                    else if target (es ! i) = target e then (es ! i)\<lparr>active := Some False\<rparr>
                    else es ! i))
          \<and> filter (\<lambda>x. target x = target e \<and> isActive x) (setActive es (edge_id e))
              = [e\<lparr>active := Some True\<rparr>])
       \<and> (branch_inv es \<longrightarrow> (\<forall>ids. branch_inv (foldl setActive es ids)))"
proof (intro conjI ballI allI impI)
  fix e assume e: "e \<in> set es"
  show "length (setActive es (edge_id e)) = length es"
    by (simp add: setActive_member[OF assms e] handleToggleActive_def)
  show "filter (\<lambda>x. target x = target e \<and> isActive x) (setActive es (edge_id e))
              = [e\<lparr>active := Some True\<rparr>]"
    by (rule setActive_only_active[OF assms e])
next
  fix e i assume e: "e \<in> set es" and i: "i < length es"
  have "edge_id (es ! i) = edge_id e \<longleftrightarrow> es ! i = e"
    using assms e i by (metis distinct_map inj_onD nth_mem)
  then show "setActive es (edge_id e) ! i =
                   (if es ! i = e then e\<lparr>active := Some True\<rparr>
                    else if target (es ! i) = target e then (es ! i)\<lparr>active := Some False\<rparr>
                    else es ! i)"
    by (auto simp: setActive_member[OF assms e] handleToggleActive_nth[OF i])
next
  fix ids assume "branch_inv es"
  with assms show "branch_inv (foldl setActive es ids)"
    by (simp add: foldl_setActive_inv)
qed

theorem setActive_branch_invariant_witness:
  "distinct (map edge_id sample_branch_edges) \<and> branch_inv sample_branch_edges
   \<and> setActive sample_branch_edges ''e2'' =
        [sample_edge ''e1'' ''A'' ''B'' (Some False), sample_edge ''e2'' ''A2'' ''B'' (Some True),
         sample_edge ''e3'' ''C'' ''D'' (Some True)]
   \<and> branch_inv (foldl setActive sample_branch_edges [''e2'', ''e1'', ''e3''])"
proof -
  have d: "distinct (map edge_id sample_branch_edges)"
    by (simp add: sample_branch_edges_def sample_edge_def)
  have b: "branch_inv sample_branch_edges"
    by (simp add: sample_branch_edges_def sample_edge_def branch_inv_def)
  have s: "setActive sample_branch_edges ''e2'' =
        [sample_edge ''e1'' ''A'' ''B'' (Some False), sample_edge ''e2'' ''A2'' ''B'' (Some True),
         sample_edge ''e3'' ''C'' ''D'' (Some True)]"
    by (simp add: sample_branch_edges_def sample_edge_def setActive_def handleToggleActive_def toggle_edge_def)
  from setActive_branch_invariant[OF d] b
  have "branch_inv (foldl setActive sample_branch_edges [''e2'', ''e1'', ''e3''])"
    by blast
  with d b s show ?thesis by simp
qed

subsection \<open>The order of the visit\<close>

lemma queue_order_skip:
  "set junk \<subseteq> visited \<Longrightarrow> queue_order edges visited (junk @ queue) = queue_order edges visited queue"
  by (induction junk) auto

lemma filter_eq_ConsD:
  assumes "filter P ys = x # xs"
  shows "\<exists>junk rest. ys = junk @ x # rest \<and> (\<forall>j \<in> set junk. \<not> P j) \<and> P x \<and> filter P rest = xs"
  using assms by (auto simp: filter_eq_Cons_iff)

lemma queue_order_cong:
  "filter (\<lambda>t. t \<notin> visited) q1 = filter (\<lambda>t. t \<notin> visited) q2
     \<Longrightarrow> queue_order edges visited q1 = queue_order edges visited q2"
proof (induction edges visited q1 arbitrary: q2 rule: queue_order.induct)
  case (1 edges visited)
  then have "set q2 \<subseteq> visited"
    by (auto simp: filter_empty_conv dest: sym)
  then show ?case
    using queue_order_skip[of q2 visited edges "[]"] by simp
next
  case (2 edges visited i queue)
  show ?case
  proof (cases "i \<in> visited")
    case True
    with 2 show ?thesis by simp
  next
    case False
    with "2.prems" have "filter (\<lambda>t. t \<notin> visited) q2 = i # filter (\<lambda>t. t \<notin> visited) queue"
      by simp
    from filter_eq_ConsD[OF this] obtain junk rest where
      q2: "q2 = junk @ i # rest" and junk: "\<forall>j \<in> set junk. \<not> j \<notin> visited"
      and rest: "filter (\<lambda>t. t \<notin> visited) rest = filter (\<lambda>t. t \<notin> visited) queue"
      by blast
    let ?S = "filter (\<lambda>t. t \<notin> insert i visited) (active_successors edges i)"
    have "filter (\<lambda>t. t \<noteq> i) (filter (\<lambda>t. t \<notin> visited) queue)
            = filter (\<lambda>t. t \<noteq> i) (filter (\<lambda>t. t \<notin> visited) rest)"
      using rest by simp
    then have "filter (\<lambda>t. t \<notin> insert i visited) (queue @ ?S)
            = filter (\<lambda>t. t \<notin> insert i visited) (rest @ ?S)"
      by (simp add: conj_commute)
    from "2.IH"(2)[OF False this]
    have "queue_order edges (insert i visited) (queue @ ?S)
            = queue_order edges (insert i visited) (rest @ ?S)" .
    moreover have "queue_order edges visited q2 = queue_order edges visited (i # rest)"
      unfolding q2 using junk by (intro queue_order_skip) auto
    ultimately show ?thesis
      using False by simp
  qed
qed

lemma queue_order_row:
  "\<exists>E. queue_order edges visited (q @ P)
          = fresh visited q @ queue_order edges (visited \<union> set (fresh visited q)) (P @ E)
       \<and> filter (\<lambda>t. t \<notin> visited \<union> set (fresh visited q)) E
          = filter (\<lambda>t. t \<notin> visited \<union> set (fresh visited q))
              (concat (map (active_successors edges) (fresh visited q)))"
proof (induction q arbitrary: visited P)
  case Nil
  show ?case
    by (rule exI[of _ "[]"]) simp
next
  case (Cons i q)
  show ?case
  proof (cases "i \<in> visited")
    case True
    with Cons[of visited P] show ?thesis by simp
  next
    case False
    let ?V = "insert i visited"
    let ?S = "filter (\<lambda>t. t \<notin> ?V) (active_successors edges i)"
    let ?F = "fresh ?V q"
    from Cons[of ?V "P @ ?S"] obtain E where
      E: "queue_order edges ?V (q @ P @ ?S)
            = ?F @ queue_order edges (?V \<union> set ?F) ((P @ ?S) @ E)"
      and f: "filter (\<lambda>t. t \<notin> ?V \<union> set ?F) E
            = filter (\<lambda>t. t \<notin> ?V \<union> set ?F) (concat (map (active_successors edges) ?F))"
      by auto
    have W: "visited \<union> set (fresh visited (i # q)) = ?V \<union> set ?F"
      using False by auto
    have "filter (\<lambda>t. t \<notin> ?V \<union> set ?F) ?S
            = filter (\<lambda>t. t \<notin> ?V \<union> set ?F) (active_successors edges i)"
      by (auto intro: filter_cong)
    with f have f': "filter (\<lambda>t. t \<notin> ?V \<union> set ?F) (?S @ E)
            = filter (\<lambda>t. t \<notin> ?V \<union> set ?F)
                (concat (map (active_successors edges) (i # ?F)))"
      by simp
    show ?thesis
      apply (rule exI[of _ "?S @ E"])
      unfolding W
      using False E f' by simp
  qed
qed

lemma queue_order_breadth_first:
  "queue_order edges seen level = breadth_first_order edges seen level"
proof (induction edges seen level rule: breadth_first_order.induct)
  case (1 edges seen level)
  let ?row = "fresh seen level"
  from queue_order_row[of edges seen level "[]"] obtain E where
    E: "queue_order edges seen level = ?row @ queue_order edges (seen \<union> set ?row) E"
    and f: "filter (\<lambda>t. t \<notin> seen \<union> set ?row) E
          = filter (\<lambda>t. t \<notin> seen \<union> set ?row) (concat (map (active_successors edges) ?row))"
    by auto
  have c: "queue_order edges (seen \<union> set ?row) E
         = queue_order edges (seen \<union> set ?row) (concat (map (active_successors edges) ?row))"
    by (rule queue_order_cong[OF f])
  show ?case
  proof (cases "?row = []")
    case True
    with E c show ?thesis
      by (simp add: breadth_first_order.simps[of edges seen level])
  next
    case False
    from "1.IH"[OF refl False] E c False show ?thesis
      by (simp add: breadth_first_order.simps[of edges seen level] Let_def)
  qed
qed


lemma map_of_set_property: "map_of (set_property k v ps) = (map_of ps)(k \<mapsto> v)"
  by (induction ps) auto

lemma keys_set_property: "fst ` set (set_property k v ps) = insert k (fst ` set ps)"
  by (induction ps) auto

lemma get_property_plain:
  "\<not> inherited k \<Longrightarrow>
     get_property obj k = (case map_of obj k of Some v \<Rightarrow> Own v | None \<Rightarrow> Undefined)"
  by (simp add: get_property_def inherited_def split: option.splits)

lemma get_property_inherited:
  "inherited k \<Longrightarrow> k \<notin> fst ` set obj \<Longrightarrow> \<exists>m. get_property obj k = Inherited m"
  by (auto simp: get_property_def inherited_def map_of_eq_None_iff split: option.splits)

lemma forEach_adj_push:
  assumes "\<forall>e \<in> set es. \<not> inherited (source e)"
  shows "\<exists>adj. forEach adj_push es adj0 = Inr adj
           \<and> (\<forall>k. own_targets adj k = own_targets adj0 k @ map target (filter (\<lambda>e. source e = k) es))
           \<and> fst ` set adj = fst ` set adj0 \<union> source ` set es"
  using assms
proof (induction es arbitrary: adj0)
  case Nil
  then show ?case by simp
next
  case (Cons e es)
  then have ne: "\<not> inherited (source e)"
    by simp
  define adj1 where "adj1 = set_property (source e) (own_targets adj0 (source e) @ [target e]) adj0"
  have push: "adj_push e adj0 = Inr adj1"
    by (simp add: adj_push_def push_to_def get_property_plain[OF ne] adj1_def own_targets_def
        split: option.splits)
  have t1: "own_targets adj1 k = own_targets adj0 k @ (if source e = k then [target e] else [])" for k
    by (simp add: adj1_def own_targets_def map_of_set_property)
  have k1: "fst ` set adj1 = insert (source e) (fst ` set adj0)"
    by (simp add: adj1_def keys_set_property)
  from Cons.IH[of adj1] Cons.prems obtain adj where
    a: "forEach adj_push es adj1 = Inr adj"
       "\<forall>k. own_targets adj k = own_targets adj1 k @ map target (filter (\<lambda>e. source e = k) es)"
       "fst ` set adj = fst ` set adj1 \<union> source ` set es"
    by auto
  show ?case
    apply (rule exI[of _ adj])
    using a push t1 k1 by auto
qed

lemma forEach_adj_push_throws:
  assumes "\<exists>e \<in> set es. inherited (source e)" "\<forall>k \<in> fst ` set adj0. \<not> inherited k"
  shows "forEach adj_push es adj0 = Inl TypeError"
  using assms
proof (induction es arbitrary: adj0)
  case Nil
  then show ?case by simp
next
  case (Cons e es)
  show ?case
  proof (cases "inherited (source e)")
    case True
    with Cons.prems(2) have "source e \<notin> fst ` set adj0"
      by auto
    from get_property_inherited[OF True this] show ?thesis
      by (auto simp: adj_push_def push_to_def)
  next
    case False
    with Cons.prems(1) have ex: "\<exists>e \<in> set es. inherited (source e)"
      by auto
    define adj1 where "adj1 = set_property (source e) (own_targets adj0 (source e) @ [target e]) adj0"
    have push: "adj_push e adj0 = Inr adj1"
      by (simp add: adj_push_def push_to_def get_property_plain[OF False] adj1_def own_targets_def
          split: option.splits)
    have "\<forall>k \<in> fst ` set adj1. \<not> inherited k"
      using Cons.prems(2) False by (auto simp: adj1_def keys_set_property)
    from Cons.IH[OF ex this] push show ?thesis
      by simp
  qed
qed

lemma adjacency_throws:
  assumes "\<exists>e \<in> set edges. isActive e \<and> inherited (source e)"
  shows "adjacency (activeEdges edges) = Inl TypeError"
  unfolding adjacency_def
  by (rule forEach_adj_push_throws) (use assms in \<open>auto simp: activeEdges_def\<close>)

lemma adjacency_built:
  assumes "\<not> (\<exists>e \<in> set edges. isActive e \<and> inherited (source e))"
  shows "\<exists>adj. adjacency (activeEdges edges) = Inr adj
           \<and> (\<forall>k. connected adj k =
                 (if inherited k then Inl TypeError else Inr (active_successors edges k)))"
proof -
  have "\<forall>e \<in> set (activeEdges edges). \<not> inherited (source e)"
    using assms by (auto simp: activeEdges_def)
  from forEach_adj_push[OF this, of "[]"] obtain adj where
    a: "adjacency (activeEdges edges) = Inr adj"
       "\<forall>k. own_targets adj k = map target (filter (\<lambda>e. source e = k) (activeEdges edges))"
       "fst ` set adj = source ` set (activeEdges edges)"
    by (auto simp: adjacency_def own_targets_def)
  have s: "own_targets adj k = active_successors edges k" for k
    using a(2) by (simp add: active_successors_def activeEdges_def conj_commute)
  have "connected adj k = (if inherited k then Inl TypeError else Inr (active_successors edges k))" for k
  proof (cases "inherited k")
    case True
    then have "k \<notin> fst ` set adj"
      using a(3) assms by (auto simp: activeEdges_def)
    from get_property_inherited[OF True this] True show ?thesis
      by (auto simp: connected_def)
  next
    case False
    then show ?thesis
      using s[of k]
      by (simp add: connected_def get_property_plain own_targets_def split: option.splits)
  qed
  with a(1) show ?thesis by blast
qed

lemma push_node_contributing:
  "push_node nodes i ord = ord @ contributing_nodes nodes [i]"
  by (simp add: push_node_def contributing_nodes_def split: option.splits)

lemma contributing_nodes_Cons:
  "contributing_nodes nodes (i # ids) = contributing_nodes nodes [i] @ contributing_nodes nodes ids"
  by (simp add: contributing_nodes_def)

lemma bfs_queue_order:
  assumes "\<forall>k. connected adj k =
                 (if inherited k then Inl TypeError else Inr (active_successors edges k))"
  shows "bfs nodes adj visited ord queue =
           (if \<exists>i \<in> set (queue_order edges visited queue). inherited i then Inl TypeError
            else Inr (ord @ contributing_nodes nodes (queue_order edges visited queue)))"
  using assms
proof (induction edges visited queue arbitrary: ord rule: queue_order.induct)
  case (1 edges visited)
  show ?case by (simp add: contributing_nodes_def)
next
  case (2 edges visited i queue)
  show ?case
  proof (cases "i \<in> visited")
    case True
    with 2 show ?thesis by simp
  next
    case False
    show ?thesis
    proof (cases "inherited i")
      case True
      with False "2.prems" show ?thesis by simp
    next
      case inh: False
      let ?q = "queue @ filter (\<lambda>t. t \<notin> insert i visited) (active_successors edges i)"
      have c: "connected adj i = Inr (active_successors edges i)"
        using "2.prems" inh by simp
      have "bfs nodes adj visited ord (i # queue)
              = bfs nodes adj (insert i visited) (push_node nodes i ord) ?q"
        using False c by simp
      also have "\<dots> = (if \<exists>j \<in> set (queue_order edges (insert i visited) ?q). inherited j
                        then Inl TypeError
                        else Inr (push_node nodes i ord
                                  @ contributing_nodes nodes (queue_order edges (insert i visited) ?q)))"
        by (rule "2.IH"(2)[OF False "2.prems"])
      also have "\<dots> = (if \<exists>j \<in> set (queue_order edges visited (i # queue)). inherited j
                        then Inl TypeError
                        else Inr (ord @ contributing_nodes nodes (queue_order edges visited (i # queue))))"
        using False inh by (simp add: push_node_contributing contributing_nodes_def)
      finally show ?thesis .
    qed
  qed
qed

lemma breadth_first_order_unfold:
  "breadth_first_order edges seen level =
     (if fresh seen level = [] then []
      else fresh seen level @ breadth_first_order edges (seen \<union> set (fresh seen level))
                                (concat (map (active_successors edges) (fresh seen level))))"
  by (subst breadth_first_order.simps) (simp add: Let_def)



lemma breadth_first_order_fresh:
  "set (breadth_first_order edges seen level) \<inter> seen = {}"
proof (induction edges seen level rule: breadth_first_order.induct)
  case (1 edges seen level)
  show ?case
  proof (cases "fresh seen level = []")
    case True
    then show ?thesis
      by (simp add: breadth_first_order_unfold[of edges seen level])
  next
    case False
    from "1.IH"[OF refl False] False show ?thesis
      by (subst breadth_first_order_unfold) (auto simp: set_fresh)
  qed
qed

lemma distinct_fresh: "distinct (fresh seen level)"
  by (induction level arbitrary: seen) (auto simp: set_fresh)

lemma breadth_first_order_distinct:
  "distinct (breadth_first_order edges seen level)"
proof (induction edges seen level rule: breadth_first_order.induct)
  case (1 edges seen level)
  show ?case
  proof (cases "fresh seen level = []")
    case True
    then show ?thesis
      by (simp add: breadth_first_order_unfold[of edges seen level])
  next
    case False
    from "1.IH"[OF refl False] False
      breadth_first_order_fresh[of edges "seen \<union> set (fresh seen level)"
        "concat (map (active_successors edges) (fresh seen level))"]
    show ?thesis
      by (subst breadth_first_order_unfold) (auto simp: distinct_fresh)
  qed
qed



lemma orderedNodes_all_breadth_first:
  "orderedNodes_all nodes edges =
     (if (\<exists>e \<in> set edges. isActive e \<and> inherited (source e))
         \<or> (\<exists>i \<in> set (breadth_first_order edges {}
                          (map node_id (roots nodes (activeEdges edges)))). inherited i)
      then Inl TypeError
      else Inr (contributing_nodes nodes
                  (breadth_first_order edges {} (map node_id (roots nodes (activeEdges edges))))))"
proof (cases "\<exists>e \<in> set edges. isActive e \<and> inherited (source e)")
  case True
  then show ?thesis
    by (simp add: orderedNodes_all_def adjacency_throws)
next
  case False
  from adjacency_built[OF False] obtain adj where
    a: "adjacency (activeEdges edges) = Inr adj"
       "\<forall>k. connected adj k =
                 (if inherited k then Inl TypeError else Inr (active_successors edges k))"
    by blast
  have "bfs nodes adj {} [] q =
          (if \<exists>i \<in> set (breadth_first_order edges {} q). inherited i then Inl TypeError
           else Inr (contributing_nodes nodes (breadth_first_order edges {} q)))" for q
    using bfs_queue_order[OF a(2), of nodes "{}" "[]" q]
    by (simp only: queue_order_breadth_first append_Nil)
  with False a(1) show ?thesis
    by (simp add: orderedNodes_all_def Let_def del: bfs.simps)
qed


subsection \<open>Edges without an \<open>active\<close> field\<close>













subsection \<open>The traversal\<close>

lemma push_node_cases:
  obtains "push_node nodes i ord = ord"
  | n where "n \<in> set nodes" "node_id n = i" "node_type n \<noteq> GroupNode"
      "push_node nodes i ord = ord @ [n]"
proof (cases "find (\<lambda>n. node_id n = i) nodes")
  case None
  then show ?thesis using that(1) by (simp add: push_node_def)
next
  case (Some n)
  then have "n \<in> set nodes" "node_id n = i"
    by (auto simp: find_Some_iff)
  with Some that show ?thesis
    by (cases "node_type n = GroupNode") (auto simp: push_node_def)
qed

lemma bfs_distinct:
  assumes "bfs nodes adj visited ord queue = Inr ordered"
    and "distinct (map node_id ord)" "node_id ` set ord \<subseteq> visited"
  shows "distinct (map node_id ordered)"
  using assms
proof (induction nodes adj visited ord queue rule: bfs.induct)
  case (1 nodes adj visited orderedNodes)
  then show ?case by simp
next
  case (2 nodes adj visited orderedNodes nodeId queue)
  show ?case
  proof (cases "nodeId \<in> visited")
    case True
    with 2 show ?thesis by simp
  next
    case False
    with "2.prems"(1) obtain targets where t: "connected adj nodeId = Inr targets"
      by (cases "connected adj nodeId") auto
    have "distinct (map node_id (push_node nodes nodeId orderedNodes))
          \<and> node_id ` set (push_node nodes nodeId orderedNodes) \<subseteq> insert nodeId visited"
      using "2.prems"(2,3) False
      by (cases nodes nodeId orderedNodes rule: push_node_cases) auto
    with "2.IH"(2)[OF False t] "2.prems"(1) False t show ?thesis by simp
  qed
qed

text \<open>
  Claim C3. The loop of \<open>copyAllConnected\<close> and \<open>copyPathFromNode\<close> ends from every
  state, whatever the nodes, the adjacency object and the queue are: every state is in the
  domain on which the recursion is well-founded. Either function ends with the exception
  or with its array of collected nodes, and no two nodes of that array share an id.
\<close>

theorem traversal_terminates_without_repeats:
  "bfs_dom (nodes, adj, visited, orderedNodes, queue)
   \<and> (orderedNodes_all nodes edges = Inl TypeError
        \<or> (\<exists>ordered. orderedNodes_all nodes edges = Inr ordered \<and> distinct (map node_id ordered)))
   \<and> (orderedNodes_from startNodeId nodes edges = Inl TypeError
        \<or> (\<exists>ordered. orderedNodes_from startNodeId nodes edges = Inr ordered
              \<and> distinct (map node_id ordered)))"
proof (intro conjI)
  show "bfs_dom (nodes, adj, visited, orderedNodes, queue)"
    by (rule bfs_terminates)
  show "orderedNodes_all nodes edges = Inl TypeError
        \<or> (\<exists>ordered. orderedNodes_all nodes edges = Inr ordered \<and> distinct (map node_id ordered))"
  proof (cases "orderedNodes_all nodes edges")
    case (Inl err)
    then show ?thesis by (cases err) simp
  next
    case (Inr ordered)
    then obtain a where "bfs nodes a {} [] (map node_id (roots nodes (activeEdges edges))) = Inr ordered"
      by (auto simp: orderedNodes_all_def Let_def split: sum.splits)
    from bfs_distinct[OF this] Inr show ?thesis by simp
  qed
  show "orderedNodes_from startNodeId nodes edges = Inl TypeError
        \<or> (\<exists>ordered. orderedNodes_from startNodeId nodes edges = Inr ordered
              \<and> distinct (map node_id ordered))"
  proof (cases "orderedNodes_from startNodeId nodes edges")
    case (Inl err)
    then show ?thesis by (cases err) simp
  next
    case (Inr ordered)
    then obtain a where "bfs nodes a {} [] [startNodeId] = Inr ordered"
      by (auto simp: orderedNodes_from_def split: sum.splits simp del: bfs.simps)
    from bfs_distinct[OF this] Inr show ?thesis by simp
  qed
qed

lemma traversal_of_cycle:
  "orderedNodes_from ''A'' [sample_node ''A'' PromptNode ''Hello'', sample_node ''B'' PromptNode ''World'']
     [sample_edge ''e1'' ''A'' ''B'' None, sample_edge ''e2'' ''B'' ''A'' None]
   = Inr [sample_node ''A'' PromptNode ''Hello'', sample_node ''B'' PromptNode ''World'']
   \<and> copyPathFromNode ''A'' [sample_node ''A'' PromptNode ''Hello'', sample_node ''B'' PromptNode ''World'']
     [sample_edge ''e1'' ''A'' ''B'' None, sample_edge ''e2'' ''B'' ''A'' None]
   = Inr (Some ''Hello\<newline>\<newline>World'')
   \<and> copyAllConnected [sample_node ''A'' PromptNode ''Hello'', sample_node ''B'' PromptNode ''World'']
     [sample_edge ''e1'' ''A'' ''B'' None, sample_edge ''e2'' ''B'' ''A'' None]
   = Inr (Some [])"
  by code_simp

subsection \<open>The text of the active path\<close>

lemma trim_nonempty_iff: "trim s \<noteq> [] \<longleftrightarrow> (\<exists>c \<in> set s. \<not> js_whitespace c)"
proof -
  have "set (dropWhile js_whitespace s) \<subseteq> set s"
    by (rule set_dropWhileD[THEN subsetI])
  moreover have "\<exists>c \<in> set (dropWhile js_whitespace s). \<not> js_whitespace c"
    if "c \<in> set s" "\<not> js_whitespace c" for c
  proof -
    have "set s = set (takeWhile js_whitespace s) \<union> set (dropWhile js_whitespace s)"
      by (metis set_append takeWhile_dropWhile_id)
    moreover have "c \<notin> set (takeWhile js_whitespace s)"
      using that(2) by (auto dest: set_takeWhileD)
    ultimately show ?thesis using that by auto
  qed
  ultimately show ?thesis
    by (auto simp: trim_def dropWhile_eq_Nil_conv)
qed

lemma roots_filter:
  "roots nodes (activeEdges edges) =
     filter (\<lambda>n. node_type n \<noteq> GroupNode
                \<and> (\<exists>e \<in> set edges. isActive e \<and> source e = node_id n)
                \<and> \<not> (\<exists>e \<in> set edges. isActive e \<and> target e = node_id n)) nodes"
  unfolding roots_def by (rule filter_cong) (auto simp: activeEdges_def image_iff)

lemma roots_no_edges: "roots nodes [] = []"
  by (simp add: roots_def)

lemma copyAllConnected_breadth_first:
  "copyAllConnected nodes edges =
     (if (\<exists>e \<in> set edges. isActive e \<and> inherited (source e))
         \<or> (\<exists>i \<in> set (breadth_first_order edges {}
                          (map node_id (roots nodes (activeEdges edges)))). inherited i)
      then Inl TypeError
      else if activeEdges edges = [] then Inr None
      else Inr (Some (combinedPrompt (contributing_nodes nodes
                  (breadth_first_order edges {} (map node_id (roots nodes (activeEdges edges))))))))"
proof -
  let ?visit = "breadth_first_order edges {} (map node_id (roots nodes (activeEdges edges)))"
  have c: "copyAllConnected nodes edges =
     (case adjacency (activeEdges edges) of
        Inl err \<Rightarrow> Inl err
      | Inr adj \<Rightarrow>
          if activeEdges edges = [] then Inr None
          else (case orderedNodes_all nodes edges of
                  Inl err \<Rightarrow> Inl err
                | Inr ordered \<Rightarrow> Inr (Some (combinedPrompt ordered))))"
    by (auto simp: copyAllConnected_def orderedNodes_all_def Let_def roots_no_edges
        split: sum.splits)
  show ?thesis
  proof (cases "\<exists>e \<in> set edges. isActive e \<and> inherited (source e)")
    case True
    then show ?thesis
      by (simp add: c adjacency_throws)
  next
    case False
    from adjacency_built[OF False] obtain adj where a: "adjacency (activeEdges edges) = Inr adj"
      by blast
    show ?thesis
    proof (cases "activeEdges edges = []")
      case True
      then have "?visit = []"
        by (simp add: roots_no_edges breadth_first_order_unfold)
      with True False a show ?thesis
        by (simp add: c)
    next
      case ne: False
      with False a show ?thesis
        by (auto simp: c orderedNodes_all_breadth_first)
    qed
  qed
qed

text \<open>
  Claim C2, as stated, fails: a contribution that consists of white space only is not
  empty, yet it is dropped. With \<open>A\<close> holding a single space, the text written is
  \<open>World\<close>, not the space, a blank line and \<open>World\<close>. And the function returns no text
  at all when a visited id names an inherited member of the adjacency object: with the
  nodes \<open>A\<close> and \<open>constructor\<close> and an active edge from the first to the second it throws.
\<close>

theorem whitespace_contribution_dropped:
  "copyAllConnected [sample_node ''A'' PromptNode '' '', sample_node ''B'' PromptNode ''World'']
     [sample_edge ''e1'' ''A'' ''B'' (Some True)] = Inr (Some ''World'')
   \<and> orderedNodes_all
          [sample_node ''A'' PromptNode '' '', sample_node ''B'' PromptNode ''World'']
          [sample_edge ''e1'' ''A'' ''B'' (Some True)]
       = Inr [sample_node ''A'' PromptNode '' '', sample_node ''B'' PromptNode ''World'']
   \<and> nonempty_contributions_text
          [sample_node ''A'' PromptNode '' '', sample_node ''B'' PromptNode ''World'']
       = '' \<newline>\<newline>World''
   \<and> copyAllConnected
        [sample_node ''A'' PromptNode ''Hello'', sample_node ''constructor'' PromptNode ''World'']
        [sample_edge ''e1'' ''A'' ''constructor'' (Some True)] = Inl TypeError"
  by code_simp


text \<open>
  Claim C2, amended. Without a start node the queue starts with the ids of the roots,
  in the order of the node array: the nodes that are not groups, are the source of an
  active edge and the target of none. From there the ids are visited breadth first along
  the active edges, each id once, and every visited id contributes the first node that
  carries it unless that is a group. The function throws when an active edge leaves an id
  that names an inherited member of the adjacency object, or when such an id is visited.
  Otherwise, with no active edge nothing is written, and with one the text written is
  the contributions of the contributing nodes that hold a character other than white
  space, in the order of the visit, joined with a blank line. For \<open>A = "Hello"\<close>,
  \<open>B = "World"\<close> and one active edge from \<open>A\<close> to \<open>B\<close> it is \<open>Hello\<close>, a blank line and
  \<open>World\<close>.
\<close>

theorem copyAllConnected_text:
  "roots nodes (activeEdges edges) =
     filter (\<lambda>n. node_type n \<noteq> GroupNode
                \<and> (\<exists>e \<in> set edges. isActive e \<and> source e = node_id n)
                \<and> \<not> (\<exists>e \<in> set edges. isActive e \<and> target e = node_id n)) nodes
   \<and> copyAllConnected nodes edges =
       (let visit = breadth_first_order edges {} (map node_id (roots nodes (activeEdges edges)))
        in if (\<exists>e \<in> set edges. isActive e \<and> inherited (source e))
              \<or> (\<exists>i \<in> set visit. inherited i)
           then Inl TypeError
           else if activeEdges edges = [] then Inr None
           else Inr (Some (join [CHR 0x0A, CHR 0x0A]
                             (filter (\<lambda>c. \<exists>ch \<in> set c. \<not> js_whitespace ch)
                                (map node_text (contributing_nodes nodes visit))))))
   \<and> distinct (breadth_first_order edges {} (map node_id (roots nodes (activeEdges edges))))
   \<and> copyAllConnected [sample_node ''A'' PromptNode ''Hello'', sample_node ''B'' PromptNode ''World'']
         [sample_edge ''e1'' ''A'' ''B'' (Some True)] = Inr (Some ''Hello\<newline>\<newline>World'')"
proof (intro conjI)
  show "distinct (breadth_first_order edges {} (map node_id (roots nodes (activeEdges edges))))"
    by (rule breadth_first_order_distinct)
  show "roots nodes (activeEdges edges) =
     filter (\<lambda>n. node_type n \<noteq> GroupNode
                \<and> (\<exists>e \<in> set edges. isActive e \<and> source e = node_id n)
                \<and> \<not> (\<exists>e \<in> set edges. isActive e \<and> target e = node_id n)) nodes"
    by (rule roots_filter)
  show "copyAllConnected nodes edges =
       (let visit = breadth_first_order edges {} (map node_id (roots nodes (activeEdges edges)))
        in if (\<exists>e \<in> set edges. isActive e \<and> inherited (source e))
              \<or> (\<exists>i \<in> set visit. inherited i)
           then Inl TypeError
           else if activeEdges edges = [] then Inr None
           else Inr (Some (join [CHR 0x0A, CHR 0x0A]
                             (filter (\<lambda>c. \<exists>ch \<in> set c. \<not> js_whitespace ch)
                                (map node_text (contributing_nodes nodes visit))))))"
    unfolding Let_def copyAllConnected_breadth_first
    by (simp only: combinedPrompt_def trim_nonempty_iff)
  show "copyAllConnected [sample_node ''A'' PromptNode ''Hello'', sample_node ''B'' PromptNode ''World'']
         [sample_edge ''e1'' ''A'' ''B'' (Some True)] = Inr (Some ''Hello\<newline>\<newline>World'')"
    by code_simp
qed

theorem copyAllConnected_text_witness:
  "roots sample_path_nodes (activeEdges sample_path_edges) = [sample_node ''A'' PromptNode '' '']
   \<and> breadth_first_order sample_path_edges {} [''A''] = [''A'', ''B'']
   \<and> map node_text (contributing_nodes sample_path_nodes [''A'', ''B'']) = ['' '', ''Hi name'']
   \<and> copyAllConnected sample_path_nodes sample_path_edges = Inr (Some ''Hi name'')"
proof -
  have r: "roots sample_path_nodes (activeEdges sample_path_edges) = [sample_node ''A'' PromptNode '' '']"
    by code_simp
  have i: "node_id (sample_node ''A'' PromptNode '' '') = ''A''"
    by (simp add: sample_node_def)
  have v: "breadth_first_order sample_path_edges {} [''A''] = [''A'', ''B'']"
    by code_simp
  have t: "map node_text (contributing_nodes sample_path_nodes [''A'', ''B'']) = ['' '', ''Hi name'']"
    by code_simp
  have a: "activeEdges sample_path_edges \<noteq> []"
    by code_simp
  have p: "\<not> ((\<exists>e \<in> set sample_path_edges. isActive e \<and> inherited (source e))
              \<or> (\<exists>i \<in> set [''A'', ''B'']. inherited i))"
    by code_simp
  have j: "join [CHR 0x0A, CHR 0x0A]
             (filter (\<lambda>c. \<exists>ch \<in> set c. \<not> js_whitespace ch) ['' '', ''Hi name'']) = ''Hi name''"
    by code_simp
  from copyAllConnected_text[of sample_path_nodes sample_path_edges]
  have "copyAllConnected sample_path_nodes sample_path_edges =
       (let visit = breadth_first_order sample_path_edges {}
                      (map node_id (roots sample_path_nodes (activeEdges sample_path_edges)))
        in if (\<exists>e \<in> set sample_path_edges. isActive e \<and> inherited (source e))
              \<or> (\<exists>i \<in> set visit. inherited i)
           then Inl TypeError
           else if activeEdges sample_path_edges = [] then Inr None
           else Inr (Some (join [CHR 0x0A, CHR 0x0A]
                             (filter (\<lambda>c. \<exists>ch \<in> set c. \<not> js_whitespace ch)
                                (map node_text (contributing_nodes sample_path_nodes visit))))))"
    by blast
  then have "copyAllConnected sample_path_nodes sample_path_edges = Inr (Some ''Hi name'')"
    unfolding r list.map i v Let_def t j using a p by simp
  with r v t show ?thesis by simp
qed

subsection \<open>Template substitution\<close>

lemma takeWhile_append_stop:
  assumes "\<not> P x"
  shows "takeWhile P (t @ x # xs) = takeWhile P t"
    and "dropWhile P (t @ x # xs) = dropWhile P t @ x # xs"
  using assms by (induction t) auto

lemma word_char_brace [simp]: "\<not> word_char CHR ''{''" "\<not> word_char CHR ''}''"
  by (simp_all add: word_char_def)












lemma fill_simps [simp]:
  "fill f [] = []"
  "fill f (Text c # segs) = c # fill f segs"
  "fill f (Hole key # segs) = f key @ fill f segs"
  by (simp_all add: fill_def)
























subsection \<open>Deleting a node\<close>

lemma detach_child_fields [simp]:
  "node_id (detach_child nid d n) = node_id n"
  "node_type (detach_child nid d n) = node_type n"
  "attachedTo (detach_child nid d n) = attachedTo n"
  by (simp_all add: detach_child_def)

lemma deleteNode_nodes_found:
  assumes "find (\<lambda>n. node_id n = nid) nds = Some d"
  shows "deleteNode_nodes nid nds = map (detach_child nid d) (filter (\<lambda>n. node_id n \<noteq> nid) nds)"
  using assms by (simp add: deleteNode_nodes_def)

text \<open>
  Claim C4. Let the sheet hold a node with the id deleted, \<open>d\<close> being the first one.
  After \<open>deleteNode\<close> no edge has the id as its source or target, and the edges are the
  former ones without those, unchanged and in their order. The nodes are the former
  ones without those carrying the id, in their order: a node whose \<open>parentNode\<close> was the
  id has lost it (with \<open>extent\<close> and \<open>hidden\<close>) and lies at the position of \<open>d\<close> plus
  its own former position; every other node is unchanged.
\<close>

theorem deleteNode_cascade:
  assumes "find (\<lambda>n. node_id n = nid) (sheet_nodes sh) = Some d"
  shows "(\<forall>e \<in> set (sheet_edges (deleteNode nid sh)). source e \<noteq> nid \<and> target e \<noteq> nid)
       \<and> sheet_edges (deleteNode nid sh)
           = filter (\<lambda>e. source e \<noteq> nid \<and> target e \<noteq> nid) (sheet_edges sh)
       \<and> (let kept = filter (\<lambda>n. node_id n \<noteq> nid) (sheet_nodes sh);
               after = sheet_nodes (deleteNode nid sh)
           in length after = length kept
              \<and> (\<forall>i < length kept.
                    (parentNode (kept ! i) = Some nid \<longrightarrow>
                       parentNode (after ! i) = None
                       \<and> position_x (after ! i) = position_x d + position_x (kept ! i)
                       \<and> position_y (after ! i) = position_y d + position_y (kept ! i)
                       \<and> after ! i =
                           (kept ! i)\<lparr>position_x := position_x d + position_x (kept ! i),
                                      position_y := position_y d + position_y (kept ! i),
                                      parentNode := None, extent := None, hidden := None\<rparr>)
                    \<and> (parentNode (kept ! i) \<noteq> Some nid \<longrightarrow> after ! i = kept ! i)))"
proof (intro conjI)
  show "\<forall>e \<in> set (sheet_edges (deleteNode nid sh)). source e \<noteq> nid \<and> target e \<noteq> nid"
    by (simp add: deleteNode_def deleteNode_edges_def)
  show "sheet_edges (deleteNode nid sh)
           = filter (\<lambda>e. source e \<noteq> nid \<and> target e \<noteq> nid) (sheet_edges sh)"
    by (simp add: deleteNode_def deleteNode_edges_def)
  have "sheet_nodes (deleteNode nid sh)
          = map (detach_child nid d) (filter (\<lambda>n. node_id n \<noteq> nid) (sheet_nodes sh))"
    by (simp add: deleteNode_def deleteNode_nodes_found[OF assms])
  then show "let kept = filter (\<lambda>n. node_id n \<noteq> nid) (sheet_nodes sh);
               after = sheet_nodes (deleteNode nid sh)
           in length after = length kept
              \<and> (\<forall>i < length kept.
                    (parentNode (kept ! i) = Some nid \<longrightarrow>
                       parentNode (after ! i) = None
                       \<and> position_x (after ! i) = position_x d + position_x (kept ! i)
                       \<and> position_y (after ! i) = position_y d + position_y (kept ! i)
                       \<and> after ! i =
                           (kept ! i)\<lparr>position_x := position_x d + position_x (kept ! i),
                                      position_y := position_y d + position_y (kept ! i),
                                      parentNode := None, extent := None, hidden := None\<rparr>)
                    \<and> (parentNode (kept ! i) \<noteq> Some nid \<longrightarrow> after ! i = kept ! i))"
    by (simp add: Let_def detach_child_def)
qed

theorem deleteNode_cascade_witness:
  "find (\<lambda>n. node_id n = ''G'') (sheet_nodes sample_group_sheet)
     = Some ((sample_node ''G'' GroupNode [])\<lparr>position_x := 100, position_y := 200\<rparr>)
   \<and> deleteNode ''G'' sample_group_sheet =
       \<lparr>sheet_nodes =
          [(sample_node ''A'' PromptNode ''Hello'')\<lparr>position_x := 120, position_y := 260\<rparr>,
           (sample_node ''B'' PromptNode ''World'')\<lparr>position_x := 5, position_y := 7\<rparr>],
        sheet_edges = [sample_edge ''e1'' ''A'' ''B'' None]\<rparr>"
proof -
  have f: "find (\<lambda>n. node_id n = ''G'') (sheet_nodes sample_group_sheet)
     = Some ((sample_node ''G'' GroupNode [])\<lparr>position_x := 100, position_y := 200\<rparr>)"
    by (simp add: sample_group_sheet_def sample_node_def)
  have k: "filter (\<lambda>n. node_id n \<noteq> ''G'') (sheet_nodes sample_group_sheet) =
            [(sample_node ''A'' PromptNode ''Hello'')
               \<lparr>position_x := 20, position_y := 60, parentNode := Some ''G'',
                extent := Some ''parent''\<rparr>,
             (sample_node ''B'' PromptNode ''World'')\<lparr>position_x := 5, position_y := 7\<rparr>]"
    by (simp add: sample_group_sheet_def sample_node_def)
  note t = deleteNode_cascade[OF f, unfolded Let_def k]
  from t have e: "sheet_edges (deleteNode ''G'' sample_group_sheet) = [sample_edge ''e1'' ''A'' ''B'' None]"
    by (simp add: sample_group_sheet_def sample_edge_def)
  from t have l: "length (sheet_nodes (deleteNode ''G'' sample_group_sheet)) = 2"
    by simp
  from t have n0: "sheet_nodes (deleteNode ''G'' sample_group_sheet) ! 0
      = (sample_node ''A'' PromptNode ''Hello'')\<lparr>position_x := 120, position_y := 260\<rparr>"
    by (simp add: sample_node_def)
  from t have n1: "sheet_nodes (deleteNode ''G'' sample_group_sheet) ! 1
      = (sample_node ''B'' PromptNode ''World'')\<lparr>position_x := 5, position_y := 7\<rparr>"
    by (simp add: sample_node_def)
  from l n0 n1 have "sheet_nodes (deleteNode ''G'' sample_group_sheet) =
          [(sample_node ''A'' PromptNode ''Hello'')\<lparr>position_x := 120, position_y := 260\<rparr>,
           (sample_node ''B'' PromptNode ''World'')\<lparr>position_x := 5, position_y := 7\<rparr>]"
    by (simp add: list_eq_iff_nth_eq less_Suc_eq numeral_2_eq_2)
  with e f show ?thesis
    by (cases "deleteNode ''G'' sample_group_sheet") simp
qed

subsection \<open>Attached images after a deletion\<close>

lemma deleteNode_nodes_attachedTo:
  "map attachedTo (deleteNode_nodes nid nds) = map attachedTo (filter (\<lambda>n. node_id n \<noteq> nid) nds)"
  by (simp add: deleteNode_nodes_def split: option.splits)

lemma deleteNode_nodes_ids:
  "map node_id (deleteNode_nodes nid nds) = map node_id (filter (\<lambda>n. node_id n \<noteq> nid) nds)"
  by (simp add: deleteNode_nodes_def split: option.splits)

lemma deleteNode_nodes_no_id: "n \<in> set (deleteNode_nodes nid nds) \<Longrightarrow> node_id n \<noteq> nid"
proof -
  assume "n \<in> set (deleteNode_nodes nid nds)"
  then have "node_id n \<in> set (map node_id (deleteNode_nodes nid nds))"
    by simp
  then show ?thesis
    unfolding deleteNode_nodes_ids by auto
qed

lemma syncDependency_changes:
  assumes "find (\<lambda>n. node_id n = nid) nds = Some d" "\<not> truthy (attachedTo d)"
  shows "syncDependency (deleteNode_nodes nid nds) \<noteq> syncDependency nds"
proof -
  let ?free = "filter (\<lambda>n. \<not> truthy (attachedTo n)) nds"
  from assms(1) have d: "d \<in> set nds" "node_id d = nid"
    by (auto simp: find_Some_iff)
  have "filter (\<lambda>n. \<not> truthy (attachedTo n)) (deleteNode_nodes nid nds)
          = map (detach_child nid d) (filter (\<lambda>n. node_id n \<noteq> nid) ?free)"
    by (simp add: deleteNode_nodes_found[OF assms(1)] filter_map o_def conj_commute)
  then have "length (syncDependency (deleteNode_nodes nid nds))
               = length (filter (\<lambda>n. node_id n \<noteq> nid) ?free)"
    by (simp add: syncDependency_def)
  also have "\<dots> < length ?free"
    using d assms(2) by (intro length_filter_less[of d]) auto
  also have "\<dots> = length (syncDependency nds)"
    by (simp add: syncDependency_def)
  finally show ?thesis by auto
qed

lemma sync_node_clears:
  assumes "node_type m = ImageNode" "attachedTo m = Some nid" "nid \<noteq> []"
    and "\<forall>n \<in> set cur. node_id n \<noteq> nid"
  shows "sync_node cur m = m\<lparr>attachedTo := None\<rparr>"
proof -
  have "find (\<lambda>n. Some (node_id n) = attachedTo m) cur = None"
    using assms(2,4) by (simp add: find_None_iff)
  then show ?thesis
    using assms(1-3) by (simp add: sync_node_def truthy_def)
qed

lemma sync_node_attachedTo:
  assumes "node_type (sync_node cur m) = ImageNode" "attachedTo (sync_node cur m) = Some nid"
    "nid \<noteq> []"
  shows "\<exists>n \<in> set cur. node_id n = nid"
proof (cases "node_type m = ImageNode \<and> truthy (attachedTo m)")
  case False
  then have "sync_node cur m = m"
    by (auto simp: sync_node_def)
  with assms False show ?thesis
    by (simp add: truthy_def)
next
  case True
  show ?thesis
  proof (cases "find (\<lambda>n. Some (node_id n) = attachedTo m) cur")
    case None
    with True assms(2) show ?thesis
      by (simp add: sync_node_def)
  next
    case (Some parent)
    then have p: "parent \<in> set cur" "Some (node_id parent) = attachedTo m"
      by (auto simp: find_Some_iff)
    from True Some have "attachedTo (sync_node cur m) = attachedTo m"
      by (simp add: sync_node_def Let_def split: option.splits)
    with p assms(2) show ?thesis
      by (metis option.inject)
  qed
qed

text \<open>
  Claim C8. The updater of \<open>deleteNode\<close> leaves every \<open>attachedTo\<close> as it is; the
  deletion is completed by the effect that keeps attached images in place. When the node
  deleted exists, is not itself attached and has a non-empty id, the dependency of that
  effect changes, so the effect runs on the nodes \<open>deleteNode\<close> left, and it clears
  \<open>attachedTo\<close> of every image that was attached to the id: afterwards no image is
  attached to it.
\<close>

theorem attachedTo_cleared_by_sync_effect:
  assumes "find (\<lambda>n. node_id n = nid) nds = Some d" and "\<not> truthy (attachedTo d)"
    and "nid \<noteq> []"
  shows "map attachedTo (deleteNode_nodes nid nds)
           = map attachedTo (filter (\<lambda>n. node_id n \<noteq> nid) nds)
       \<and> syncDependency (deleteNode_nodes nid nds) \<noteq> syncDependency nds
       \<and> nodes_after_delete nid nds = syncAttachedImages (deleteNode_nodes nid nds)
       \<and> length (nodes_after_delete nid nds) = length (deleteNode_nodes nid nds)
       \<and> (\<forall>i < length (deleteNode_nodes nid nds).
             node_type (deleteNode_nodes nid nds ! i) = ImageNode
             \<and> attachedTo (deleteNode_nodes nid nds ! i) = Some nid \<longrightarrow>
               nodes_after_delete nid nds ! i = (deleteNode_nodes nid nds ! i)\<lparr>attachedTo := None\<rparr>)
       \<and> (\<forall>n \<in> set (nodes_after_delete nid nds).
             node_type n = ImageNode \<longrightarrow> attachedTo n \<noteq> Some nid)"
proof -
  let ?mid = "deleteNode_nodes nid nds"
  have dep: "syncDependency ?mid \<noteq> syncDependency nds"
    by (rule syncDependency_changes[OF assms(1,2)])
  then have after: "nodes_after_delete nid nds = syncAttachedImages ?mid"
    by (simp add: nodes_after_delete_def)
  have noid: "\<forall>n \<in> set ?mid. node_id n \<noteq> nid"
    by (auto dest: deleteNode_nodes_no_id)
  have len: "length (syncAttachedImages ?mid) = length ?mid"
    by (simp add: syncAttachedImages_def)
  have clear: "syncAttachedImages ?mid ! i = (?mid ! i)\<lparr>attachedTo := None\<rparr>"
    if "i < length ?mid" "node_type (?mid ! i) = ImageNode" "attachedTo (?mid ! i) = Some nid" for i
  proof -
    have "?mid ! i \<in> set (filter (\<lambda>n. node_type n = ImageNode \<and> truthy (attachedTo n)) ?mid)"
      using that assms(3) by (simp add: truthy_def)
    then have "filter (\<lambda>n. node_type n = ImageNode \<and> truthy (attachedTo n)) ?mid \<noteq> []"
      by (metis empty_iff list.set(1))
    then have "syncAttachedImages ?mid ! i = sync_node ?mid (?mid ! i)"
      using that(1) by (simp add: syncAttachedImages_def)
    also have "\<dots> = (?mid ! i)\<lparr>attachedTo := None\<rparr>"
      by (rule sync_node_clears[OF that(2,3) assms(3) noid])
    finally show ?thesis .
  qed
  have none: "attachedTo n \<noteq> Some nid"
    if "n \<in> set (syncAttachedImages ?mid)" "node_type n = ImageNode" for n
  proof (cases "filter (\<lambda>n. node_type n = ImageNode \<and> truthy (attachedTo n)) ?mid = []")
    case True
    then have "syncAttachedImages ?mid = ?mid" "\<not> truthy (attachedTo n)"
      using that by (auto simp: syncAttachedImages_def filter_empty_conv)
    then show ?thesis
      using assms(3) by (auto simp: truthy_def)
  next
    case False
    then have "syncAttachedImages ?mid = map (sync_node ?mid) ?mid"
      by (simp add: syncAttachedImages_def)
    with that(1) obtain m where "n = sync_node ?mid m"
      by auto
    then show ?thesis
      using sync_node_attachedTo[of ?mid m nid] that(2) assms(3) noid by auto
  qed
  show ?thesis
    using dep after len clear none by (simp add: deleteNode_nodes_attachedTo)
qed

theorem attachedTo_cleared_by_sync_effect_witness:
  "find (\<lambda>n. node_id n = ''P'') sample_attached_nodes = Some (sample_node ''P'' PromptNode ''Hello'')
   \<and> \<not> truthy (attachedTo (sample_node ''P'' PromptNode ''Hello''))
   \<and> ''P'' \<noteq> []
   \<and> map node_id (nodes_after_delete ''P'' sample_attached_nodes) = [''I'', ''J'', ''Q'']
   \<and> attachedTo (nodes_after_delete ''P'' sample_attached_nodes ! 0) = None
   \<and> attachedTo (nodes_after_delete ''P'' sample_attached_nodes ! 1) = Some ''Q''"
proof -
  have f: "find (\<lambda>n. node_id n = ''P'') sample_attached_nodes = Some (sample_node ''P'' PromptNode ''Hello'')"
    by (simp add: sample_attached_nodes_def sample_node_def)
  have t: "\<not> truthy (attachedTo (sample_node ''P'' PromptNode ''Hello''))"
    by (simp add: truthy_def sample_node_def)
  have p: "''P'' \<noteq> []"
    by simp
  have m: "deleteNode_nodes ''P'' sample_attached_nodes =
      [(sample_node ''I'' ImageNode [])\<lparr>attachedTo := Some ''P'', position_x := 300\<rparr>,
       (sample_node ''J'' ImageNode [])\<lparr>attachedTo := Some ''Q'', position_x := 300\<rparr>,
       sample_node ''Q'' PromptNode ''World'']"
    by (simp add: deleteNode_nodes_def sample_attached_nodes_def sample_node_def detach_child_def)
  note inst = attachedTo_cleared_by_sync_effect[OF f t p]
  let ?mid = "deleteNode_nodes ''P'' sample_attached_nodes"
  from inst have "\<forall>i < length ?mid.
             node_type (?mid ! i) = ImageNode \<and> attachedTo (?mid ! i) = Some ''P'' \<longrightarrow>
               nodes_after_delete ''P'' sample_attached_nodes ! i = (?mid ! i)\<lparr>attachedTo := None\<rparr>"
    by blast
  moreover have "0 < length ?mid" "node_type (?mid ! 0) = ImageNode"
    "attachedTo (?mid ! 0) = Some ''P''"
    unfolding m by (simp_all add: sample_node_def)
  ultimately have "nodes_after_delete ''P'' sample_attached_nodes ! 0 = (?mid ! 0)\<lparr>attachedTo := None\<rparr>"
    by blast
  then have 0: "attachedTo (nodes_after_delete ''P'' sample_attached_nodes ! 0) = None"
    by simp
  from inst have "nodes_after_delete ''P'' sample_attached_nodes = syncAttachedImages ?mid"
    by blast
  then have a: "nodes_after_delete ''P'' sample_attached_nodes =
      syncAttachedImages
        [(sample_node ''I'' ImageNode [])\<lparr>attachedTo := Some ''P'', position_x := 300\<rparr>,
         (sample_node ''J'' ImageNode [])\<lparr>attachedTo := Some ''Q'', position_x := 300\<rparr>,
         sample_node ''Q'' PromptNode ''World'']"
    unfolding m .
  have "map node_id (nodes_after_delete ''P'' sample_attached_nodes) = [''I'', ''J'', ''Q'']"
    "attachedTo (nodes_after_delete ''P'' sample_attached_nodes ! 1) = Some ''Q''"
    unfolding a
    by (simp_all add: syncAttachedImages_def sync_node_def sample_node_def truthy_def
        calculateAnchorPosition_def anchors_def get_property_def Object_prototype_def
        num_or_def Let_def)
  with f t p 0 show ?thesis by simp
qed

subsection \<open>Rows of the auto-layout\<close>

text \<open>
  Claim C7 does not hold of the code. With the free nodes \<open>A\<close>, \<open>B\<close>, \<open>C\<close> and the edges
  \<open>A \<rightarrow> B\<close>, \<open>A \<rightarrow> C\<close>, \<open>B \<rightarrow> C\<close> in this order, \<open>B\<close> joins the set of visited nodes
  while the targets of \<open>A\<close> are still being handled, so \<open>C\<close> passes the test that all its
  sources are visited in the same pass: \<open>B\<close> and \<open>C\<close> share row 1 although there is an
  edge from \<open>B\<close> to \<open>C\<close>, and \<open>C\<close> is reached from the root \<open>A\<close>. With \<open>A \<rightarrow> C\<close> listed
  before \<open>A \<rightarrow> B\<close> the same graph gets the rows \<open>A\<close>, \<open>B\<close>, \<open>C\<close>.
\<close>

theorem layering_breaks_within_a_pass:
  "layoutRows sample_layout_nodes sample_layout_edges
     = Inr ([[''A''], [''B'', ''C'']], [(''A'', 0), (''B'', 1), (''C'', 1)])
   \<and> layoutRows sample_layout_nodes sample_layout_edges_reordered
     = Inr ([[''A''], [''B''], [''C'']], [(''A'', 0), (''B'', 1), (''C'', 2)])"
  by code_simp

subsection \<open>Routing of very short edges\<close>

text \<open>
  Claim C9, as stated, fails. For the end points \<open>(0, 0)\<close> and \<open>(50, 0)\<close> the distance
  is 50 and the control point is \<open>(-5, 0)\<close>: the midpoint \<open>(25, 0)\<close> moved by 30 along the
  line through the end points, not at a right angle to it.
\<close>

theorem short_edge_shift_not_perpendicular:
  "endpoint_distance 0 0 50 0 = 50
   \<and> getSmartPath 0 0 50 0 Bottom Top = [MoveTo 0 0, QuadTo (-5) 0 50 0]
   \<and> \<not> perpendicular_shift 0 0 50 0 (-5) 0 (max 30 (endpoint_distance 0 0 50 0 * 0.3))"
proof -
  have d: "endpoint_distance 0 0 50 0 = 50"
    by (simp add: endpoint_distance_def)
  have "getSmartPath 0 0 50 0 Bottom Top = [MoveTo 0 0, QuadTo (-5) 0 50 0]"
    by (simp add: getSmartPath_def Let_def)
  moreover have "\<not> perpendicular_shift 0 0 50 0 (-5) 0 (max 30 (endpoint_distance 0 0 50 0 * 0.3))"
    by (simp add: perpendicular_shift_def)
  ultimately show ?thesis using d by simp
qed

text \<open>
  Claim C9, amended. When the distance between the end points is below 100 the path
  is one quadratic curve from the source to the target. Its control point has the
  height of the midpoint and lies \<open>max(30, dist * 0.3)\<close> to the left of the midpoint when
  the target is to the right of the source (\<open>dx > 0\<close>), and as much to the right of it
  otherwise: the shift is horizontal, whatever the direction of the line, and it is at
  a right angle to the line only when \<open>dx = 0\<close>.
\<close>

theorem short_edge_shift_horizontal:
  assumes "endpoint_distance sx sy tx ty < 100"
  shows "\<exists>cx. getSmartPath sx sy tx ty sp tp
                = [MoveTo sx sy, QuadTo cx ((sy + ty) / 2) tx ty]
             \<and> \<bar>cx - (sx + tx) / 2\<bar> = max 30 (endpoint_distance sx sy tx ty * 0.3)
             \<and> (tx - sx > 0 \<longrightarrow> cx < (sx + tx) / 2)
             \<and> (tx - sx \<le> 0 \<longrightarrow> cx > (sx + tx) / 2)
             \<and> ((cx - (sx + tx) / 2) * (tx - sx) + ((sy + ty) / 2 - (sy + ty) / 2) * (ty - sy) = 0
                  \<longleftrightarrow> tx = sx)"
proof -
  define off where "off = max 30 (endpoint_distance sx sy tx ty * 0.3)"
  define mx where "mx = (sx + tx) / 2"
  define cx where "cx = mx + (if tx - sx > 0 then - off else off)"
  have pos: "off > 0"
    by (simp add: off_def)
  have "getSmartPath sx sy tx ty sp tp = [MoveTo sx sy, QuadTo cx ((sy + ty) / 2) tx ty]"
    using assms by (simp add: getSmartPath_def endpoint_distance_def Let_def cx_def mx_def off_def)
  moreover have "\<bar>cx - mx\<bar> = off"
    using pos by (simp add: cx_def)
  moreover have "tx - sx > 0 \<longrightarrow> cx < mx"
    using pos by (simp add: cx_def)
  moreover have "tx - sx \<le> 0 \<longrightarrow> cx > mx"
    using pos by (simp add: cx_def)
  moreover have "(cx - mx) * (tx - sx) + ((sy + ty) / 2 - (sy + ty) / 2) * (ty - sy) = 0
                  \<longleftrightarrow> tx = sx"
    using pos by (auto simp: cx_def)
  ultimately show ?thesis
    unfolding mx_def off_def by blast
qed

theorem short_edge_shift_horizontal_witness:
  "endpoint_distance 0 0 30 40 < 100
   \<and> getSmartPath 0 0 30 40 Bottom Top = [MoveTo 0 0, QuadTo (-15) 20 30 40]"
proof -
  have "sqrt (30 * 30 + 40 * 40) = sqrt (50 * 50)"
    by simp
  then have d: "endpoint_distance 0 0 30 40 = 50"
    by (simp add: endpoint_distance_def del: real_sqrt_mult_self)
  then have l: "endpoint_distance 0 0 30 40 < 100"
    by simp
  from short_edge_shift_horizontal[OF l, of Bottom Top] obtain cx where
    c: "getSmartPath 0 0 30 40 Bottom Top = [MoveTo 0 0, QuadTo cx ((0 + 40) / 2) 30 40]"
       "\<bar>cx - (0 + 30) / 2\<bar> = max 30 (endpoint_distance 0 0 30 40 * 0.3)"
       "30 - 0 > (0::real) \<longrightarrow> cx < (0 + 30) / 2"
    by blast
  from c(2,3) d have "cx = -15"
    by simp
  with c(1) l show ?thesis by simp
qed

subsection \<open>Ids of new nodes and edges\<close>

lemma addNode_ids:
  "map node_id (addNode now cm ty col nds) =
     (case cm of None \<Rightarrow> map node_id nds | Some pos \<Rightarrow> map node_id nds @ [new_node_id now])"
  by (simp add: addNode_def Let_def split: option.splits)

lemma map_fst_of_enumerate:
  "map (\<lambda>x. g (fst x)) (enumerate n (xs :: 'e list)) = map g [n ..< n + length xs]"
proof -
  have *: "map (\<lambda>x. g (fst x)) ys = map g (map fst ys)" for ys :: "(nat \<times> 'e) list"
    by (induction ys) simp_all
  show ?thesis
    using *[of "enumerate n xs"] by (simp only: map_fst_enumerate)
qed

lemma duplicateNode_edges_ids:
  "map edge_id (duplicateNode_edges now col edgeNow edgeRnd nid eds) =
     map edge_id eds @ map (\<lambda>i. new_edge_id (edgeNow i) (edgeRnd i))
                            [0 ..< length (touching nid eds)]"
proof -
  let ?F = "\<lambda>(i, e). e\<lparr>edge_id := new_edge_id (edgeNow i) (edgeRnd i),
                        source := (if source e = nid then new_node_id now else source e),
                        target := (if target e = nid then new_node_id now else target e),
                        edge_color := col\<rparr>"
  let ?G = "\<lambda>i. new_edge_id (edgeNow i) (edgeRnd i)"
  have F: "edge_id (?F x) = ?G (fst x)" for x :: "nat \<times> edge"
    by (cases x) simp
  have "map edge_id (duplicateNode_edges now col edgeNow edgeRnd nid eds)
          = map edge_id eds @ map (\<lambda>x. edge_id (?F x)) (enumerate 0 (touching nid eds))"
    by (simp add: duplicateNode_edges_def o_def)
  also have "\<dots> = map edge_id eds @ map (\<lambda>x. ?G (fst x)) (enumerate 0 (touching nid eds))"
    unfolding F ..
  also have "\<dots> = map edge_id eds @ map ?G [0 ..< length (touching nid eds)]"
    using map_fst_of_enumerate[of ?G 0 "touching nid eds"] by simp
  finally show ?thesis .
qed


lemma digit_char_inj: "i < 10 \<Longrightarrow> j < 10 \<Longrightarrow> digit_char i = digit_char j \<Longrightarrow> i = j"
proof -
  assume "i < 10" "j < 10" "digit_char i = digit_char j"
  moreover have "distinct ''0123456789''"
    by simp
  moreover have "length ''0123456789'' = 10"
    by simp
  ultimately show ?thesis
    unfolding digit_char_def by (metis nth_eq_iff_index_eq)
qed

lemma show_nat_length: "0 < length (show_nat n)"
  by (subst show_nat.simps) simp

lemma show_nat_digits: "set (show_nat n) \<subseteq> set ''0123456789''"
proof (induction n rule: show_nat.induct)
  case (1 n)
  have d: "digit_char k \<in> set ''0123456789''" if "k < 10" for k
    unfolding digit_char_def using that by (intro nth_mem) simp
  show ?case
  proof (cases "n < 10")
    case True
    with d[of n] show ?thesis
      by (subst show_nat.simps) simp
  next
    case False
    with 1 d[of "n mod 10"] show ?thesis
      by (subst show_nat.simps) simp
  qed
qed

lemma show_nat_inj: "show_nat n = show_nat m \<Longrightarrow> n = m"
proof (induction n arbitrary: m rule: show_nat.induct)
  case (1 n)
  show ?case
  proof (cases "n < 10")
    case True
    then have n: "show_nat n = [digit_char n]"
      by (subst show_nat.simps) simp
    show ?thesis
    proof (cases "m < 10")
      case m: True
      then have "show_nat m = [digit_char m]"
        by (subst show_nat.simps) simp
      with n "1.prems" True m show ?thesis
        by (simp add: digit_char_inj)
    next
      case m: False
      then have "show_nat m = show_nat (m div 10) @ [digit_char (m mod 10)]"
        by (subst show_nat.simps) simp
      with n "1.prems" show_nat_length[of "m div 10"] show ?thesis
        by (cases "show_nat (m div 10)") auto
    qed
  next
    case False
    then have n: "show_nat n = show_nat (n div 10) @ [digit_char (n mod 10)]"
      by (subst show_nat.simps) simp
    show ?thesis
    proof (cases "m < 10")
      case m: True
      then have "show_nat m = [digit_char m]"
        by (subst show_nat.simps) simp
      with n "1.prems" show_nat_length[of "n div 10"] show ?thesis
        by (cases "show_nat (n div 10)") auto
    next
      case m: False
      then have "show_nat m = show_nat (m div 10) @ [digit_char (m mod 10)]"
        by (subst show_nat.simps) simp
      with n "1.prems" have "show_nat (n div 10) = show_nat (m div 10)"
        and "digit_char (n mod 10) = digit_char (m mod 10)"
        by simp_all
      with "1.IH"[OF False, of "m div 10"] have "n div 10 = m div 10" "n mod 10 = m mod 10"
        by (simp_all add: digit_char_inj)
      then show ?thesis
        by (metis div_mult_mod_eq)
    qed
  qed
qed

lemma new_node_id_inj: "inj new_node_id"
  by (rule injI) (simp add: new_node_id_def show_nat_inj)

lemma new_edge_id_inj: "inj (\<lambda>s. new_edge_id (fst s) (snd s))"
proof (rule injI)
  fix s s' :: "nat \<times> string"
  assume "new_edge_id (fst s) (snd s) = new_edge_id (fst s') (snd s')"
  then have e: "show_nat (fst s) @ CHR ''-'' # snd s = show_nat (fst s') @ CHR ''-'' # snd s'"
    by (simp add: new_edge_id_def)
  have nd: "CHR ''-'' \<notin> set (show_nat n)" for n
    using show_nat_digits[of n] by auto
  have t: "takeWhile (\<lambda>c. c \<noteq> CHR ''-'') (show_nat n @ CHR ''-'' # r) = show_nat n"
    and d: "dropWhile (\<lambda>c. c \<noteq> CHR ''-'') (show_nat n @ CHR ''-'' # r) = CHR ''-'' # r"
    for n r
    using nd[of n] by (auto simp: takeWhile_append_stop)
  from e have "takeWhile (\<lambda>c. c \<noteq> CHR ''-'') (show_nat (fst s) @ CHR ''-'' # snd s)
                 = takeWhile (\<lambda>c. c \<noteq> CHR ''-'') (show_nat (fst s') @ CHR ''-'' # snd s')"
    and "dropWhile (\<lambda>c. c \<noteq> CHR ''-'') (show_nat (fst s) @ CHR ''-'' # snd s)
                 = dropWhile (\<lambda>c. c \<noteq> CHR ''-'') (show_nat (fst s') @ CHR ''-'' # snd s')"
    by simp_all
  then have "show_nat (fst s) = show_nat (fst s')" "snd s = snd s'"
    unfolding t d by simp_all
  then show "s = s'"
    by (simp add: show_nat_inj prod_eq_iff)
qed

lemma distinct_append_map:
  assumes "distinct xs" "distinct ys" "inj f" "\<forall>y \<in> set ys. f y \<notin> set xs"
  shows "distinct (xs @ map f ys)"
proof -
  have "inj_on f (set ys)"
    using assms(3) by (rule inj_on_subset) simp
  with assms show ?thesis
    by (auto simp: distinct_map)
qed

lemma create_node_ids:
  "map node_id (sheet_nodes (create addEdge sh c))
     = map node_id (sheet_nodes sh) @ map new_node_id (node_stamps sh c)"
  by (cases c)
     (auto simp: addNode_ids duplicateNode_def duplicateNode_nodes_def split: option.splits)

lemma create_edge_ids:
  assumes "library_adds addEdge sh (c # cs)"
  shows "\<exists>added. map edge_id (sheet_edges (create addEdge sh c))
                    = map edge_id (sheet_edges sh)
                      @ map (\<lambda>s. new_edge_id (fst s) (snd s)) (edge_stamps sh c) @ added
                  \<and> distinct added
                  \<and> set added \<subseteq> set (connect_ids [c]) - set (map edge_id (sheet_edges sh))"
proof (cases c)
  case (AddNode now cm ty col)
  then show ?thesis by simp
next
  case (DuplicateNode now rnd edgeNow edgeRnd nid)
  have "map (\<lambda>i. new_edge_id (edgeNow i) (edgeRnd i)) xs
          = map (\<lambda>s. new_edge_id (fst s) (snd s)) (map (\<lambda>i. (edgeNow i, edgeRnd i)) xs)"
    for xs :: "nat list"
    by simp
  with DuplicateNode show ?thesis
    by (simp add: duplicateNode_def duplicateNode_edges_ids del: map_map)
next
  case (Connect eid src tgt)
  let ?e = "connection (sheet_nodes sh) eid src tgt"
  from assms Connect have
    "addEdge ?e (sheet_edges sh) = sheet_edges sh
     \<or> (addEdge ?e (sheet_edges sh) = sheet_edges sh @ [?e]
         \<and> eid \<notin> set (map edge_id (sheet_edges sh)))"
    by (simp add: Let_def)
  then show ?thesis
  proof
    assume "addEdge ?e (sheet_edges sh) = sheet_edges sh"
    with Connect show ?thesis
      by (simp add: onConnect_def)
  next
    assume "addEdge ?e (sheet_edges sh) = sheet_edges sh @ [?e]
         \<and> eid \<notin> set (map edge_id (sheet_edges sh))"
    with Connect show ?thesis
      by (intro exI[of _ "[eid]"]) (simp add: onConnect_def connection_def)
  qed
qed

lemma library_adds_rest:
  "library_adds addEdge sh (c # cs) \<Longrightarrow> library_adds addEdge (create addEdge sh c) cs"
  by (cases c) simp_all

lemma connect_ids_Cons: "connect_ids (c # cs) = connect_ids [c] @ connect_ids cs"
  by (cases c) simp_all


text \<open>
  Claim C6, as stated, fails: nothing compares a new id with the ids in the sheet. Two
  nodes added at the same reading of the clock get the same id, and so do two edges
  duplicated with the same clock reading and the same random suffix.
\<close>

theorem same_clock_reading_same_id:
  "map node_id (sheet_nodes (foldl (create append_edge) empty_sheet
      [AddNode 7 (Some (0, 0)) PromptNode ''purple'',
       AddNode 7 (Some (10, 10)) TemplateNode ''blue'']))
     = [''node-7'', ''node-7'']
   \<and> \<not> unique_ids (foldl (create append_edge) empty_sheet
      [AddNode 7 (Some (0, 0)) PromptNode ''purple'',
       AddNode 7 (Some (10, 10)) TemplateNode ''blue''])
   \<and> map edge_id (sheet_edges (foldl (create append_edge) empty_sheet
      [AddNode 7 (Some (0, 0)) PromptNode ''purple'',
       AddNode 8 (Some (10, 10)) PromptNode ''blue'',
       Connect ''c1'' ''node-7'' ''node-8'',
       Connect ''c2'' ''node-8'' ''node-7'',
       DuplicateNode 9 0.5 (\<lambda>i. 9) (\<lambda>i. ''abc'') ''node-7'']))
     = [''c1'', ''c2'', ''edge-9-abc'', ''edge-9-abc'']"
proof -
  have s: "show_nat 7 = ''7''" "show_nat 8 = ''8''" "show_nat 9 = ''9''"
    by (simp_all add: show_nat.simps digit_char_def)
  show ?thesis
    by (simp add: empty_sheet_def unique_ids_def addNode_ids new_node_id_def s
        duplicateNode_def duplicateNode_edges_ids onConnect_def connection_def append_edge_def
        touching_def new_edge_id_def)
qed

text \<open>
  Claim C6, amended. A node id is \<open>node-\<close> followed by the clock reading and the id of a
  duplicated edge is \<open>edge-\<close>, the clock reading, a hyphen and the random suffix: different
  readings give different node ids, and different pairs of reading and suffix give
  different edge ids. Let node ids and edge ids be pairwise distinct at the start. The
  node ids after a sequence of creations are those at the start followed by the ids of
  the readings the sequence has turned into node ids. When these readings are pairwise
  different and none of them gives an id the sheet had at the start, when the pairs of
  reading and suffix that the sequence has turned into edge ids are pairwise different and
  none of them gives an id that the sheet had at the start or that a connection of the
  sequence is given, and when the library adds each connection at the end under an id no
  edge has, or not at all, then node ids and edge ids are pairwise distinct after the
  sequence.
\<close>

theorem distinct_stamps_unique_ids:
  assumes "unique_ids sh"
    and "distinct (run_node_stamps addEdge sh cs)"
    and "\<forall>t \<in> set (run_node_stamps addEdge sh cs).
           new_node_id t \<notin> set (map node_id (sheet_nodes sh))"
    and "distinct (run_edge_stamps addEdge sh cs)"
    and "\<forall>s \<in> set (run_edge_stamps addEdge sh cs).
           new_edge_id (fst s) (snd s)
             \<notin> set (map edge_id (sheet_edges sh)) \<union> set (connect_ids cs)"
    and "library_adds addEdge sh cs"
  shows "unique_ids (foldl (create addEdge) sh cs)
       \<and> map node_id (sheet_nodes (foldl (create addEdge) sh cs))
           = map node_id (sheet_nodes sh) @ map new_node_id (run_node_stamps addEdge sh cs)
       \<and> inj new_node_id
       \<and> inj (\<lambda>s. new_edge_id (fst s) (snd s))"
proof -
  have "unique_ids (foldl (create addEdge) sh cs)
       \<and> map node_id (sheet_nodes (foldl (create addEdge) sh cs))
           = map node_id (sheet_nodes sh) @ map new_node_id (run_node_stamps addEdge sh cs)"
    using assms
  proof (induction cs arbitrary: sh)
    case Nil
    then show ?case by simp
  next
    case (Cons c cs)
    let ?sh = "create addEdge sh c"
    let ?ns = "node_stamps sh c" and ?nr = "run_node_stamps addEdge ?sh cs"
    let ?es = "edge_stamps sh c" and ?er = "run_edge_stamps addEdge ?sh cs"
    let ?E = "\<lambda>s. new_edge_id (fst s) (snd s)"
    have nid: "map node_id (sheet_nodes ?sh) = map node_id (sheet_nodes sh) @ map new_node_id ?ns"
      by (rule create_node_ids)
    from create_edge_ids[OF Cons.prems(6)] obtain added where
      eid: "map edge_id (sheet_edges ?sh) = map edge_id (sheet_edges sh) @ map ?E ?es @ added"
      and added: "distinct added"
        "set added \<subseteq> set (connect_ids [c]) - set (map edge_id (sheet_edges sh))"
      by blast
    from Cons.prems(2) have n1: "distinct ?ns" "distinct ?nr" "set ?ns \<inter> set ?nr = {}"
      by simp_all
    from Cons.prems(3) have n2: "\<forall>t \<in> set ?ns \<union> set ?nr.
           new_node_id t \<notin> set (map node_id (sheet_nodes sh))"
      by simp
    from Cons.prems(4) have e1: "distinct ?es" "distinct ?er" "set ?es \<inter> set ?er = {}"
      by simp_all
    from Cons.prems(5) have e2: "\<forall>s \<in> set ?es \<union> set ?er.
           ?E s \<notin> set (map edge_id (sheet_edges sh)) \<union> set (connect_ids [c]) \<union> set (connect_ids cs)"
      using connect_ids_Cons[of c cs] by auto
    have inj_n: "new_node_id t = new_node_id t' \<longleftrightarrow> t = t'" for t t'
      using new_node_id_inj by (auto dest: injD)
    have inj_e: "new_edge_id a b = new_edge_id a' b' \<longleftrightarrow> a = a' \<and> b = b'" for a b a' b'
      using injD[OF new_edge_id_inj, of "(a, b)" "(a', b')"] by auto
    have u: "unique_ids ?sh"
    proof -
      have "distinct (map node_id (sheet_nodes sh) @ map new_node_id ?ns)"
        using Cons.prems(1) n1(1) n2
        by (intro distinct_append_map new_node_id_inj) (simp_all add: unique_ids_def)
      then have "distinct (map node_id (sheet_nodes ?sh))"
        unfolding nid .
      moreover have "distinct (map edge_id (sheet_edges sh) @ map ?E ?es)"
        using Cons.prems(1) e1(1) e2
        by (intro distinct_append_map new_edge_id_inj) (simp_all add: unique_ids_def)
      then have "distinct ((map edge_id (sheet_edges sh) @ map ?E ?es) @ added)"
        using added e2 by auto
      then have "distinct (map edge_id (sheet_edges ?sh))"
        unfolding eid by simp
      ultimately show ?thesis
        by (simp add: unique_ids_def)
    qed
    have n2': "\<forall>t \<in> set ?nr. new_node_id t \<notin> set (map node_id (sheet_nodes ?sh))"
      unfolding nid using n1(3) n2 by (auto simp: inj_n)
    have e2': "\<forall>s \<in> set ?er. ?E s \<notin> set (map edge_id (sheet_edges ?sh)) \<union> set (connect_ids cs)"
      unfolding eid using e1(3) e2 added(2) by (auto simp: inj_e)
    from Cons.IH[OF u n1(2) n2' e1(2) e2' library_adds_rest[OF Cons.prems(6)]]
    show ?case
      by (simp add: nid)
  qed
  with new_node_id_inj new_edge_id_inj show ?thesis
    by simp
qed

theorem distinct_stamps_unique_ids_witness:
  "unique_ids empty_sheet
   \<and> run_node_stamps append_edge empty_sheet sample_creations = [7, 8, 9]
   \<and> run_edge_stamps append_edge empty_sheet sample_creations = [(9, ''abc'')]
   \<and> connect_ids sample_creations = [''c1'']
   \<and> library_adds append_edge empty_sheet sample_creations
   \<and> map node_id (sheet_nodes (foldl (create append_edge) empty_sheet sample_creations))
        = [''node-7'', ''node-8'', ''node-9'']
   \<and> map edge_id (sheet_edges (foldl (create append_edge) empty_sheet sample_creations))
        = [''c1'', ''edge-9-abc'']
   \<and> unique_ids (foldl (create append_edge) empty_sheet sample_creations)"
proof -
  have u: "unique_ids empty_sheet"
    by (simp add: unique_ids_def empty_sheet_def)
  have s: "show_nat 7 = ''7''" "show_nat 8 = ''8''" "show_nat 9 = ''9''"
    by (simp_all add: show_nat.simps digit_char_def)
  have n: "run_node_stamps append_edge empty_sheet sample_creations = [7, 8, 9]"
    by (simp add: sample_creations_def empty_sheet_def addNode_def new_node_id_def s Let_def
        onConnect_def)
  have e: "run_edge_stamps append_edge empty_sheet sample_creations = [(9, ''abc'')]"
    by (simp add: sample_creations_def empty_sheet_def addNode_def new_node_id_def s Let_def
        onConnect_def connection_def append_edge_def touching_def)
  have c: "connect_ids sample_creations = [''c1'']"
    by (simp add: sample_creations_def)
  have l: "library_adds append_edge empty_sheet sample_creations"
    by (simp add: sample_creations_def empty_sheet_def append_edge_def Let_def)
  have x: "map edge_id (sheet_edges (foldl (create append_edge) empty_sheet sample_creations))
        = [''c1'', ''edge-9-abc'']"
    by (simp add: sample_creations_def empty_sheet_def duplicateNode_def duplicateNode_edges_ids
        onConnect_def connection_def append_edge_def touching_def new_edge_id_def s
        addNode_def new_node_id_def Let_def)
  have h3: "\<forall>t \<in> set (run_node_stamps append_edge empty_sheet sample_creations).
           new_node_id t \<notin> set (map node_id (sheet_nodes empty_sheet))"
    by (simp add: empty_sheet_def)
  have h5: "\<forall>s \<in> set (run_edge_stamps append_edge empty_sheet sample_creations).
           new_edge_id (fst s) (snd s)
             \<notin> set (map edge_id (sheet_edges empty_sheet)) \<union> set (connect_ids sample_creations)"
    unfolding e c by (simp add: empty_sheet_def new_edge_id_def)
  have h2: "distinct (run_node_stamps append_edge empty_sheet sample_creations)"
    unfolding n by simp
  have h4: "distinct (run_edge_stamps append_edge empty_sheet sample_creations)"
    unfolding e by simp
  from distinct_stamps_unique_ids[OF u h2 h3 h4 h5 l]
  have r: "unique_ids (foldl (create append_edge) empty_sheet sample_creations)"
    "map node_id (sheet_nodes (foldl (create append_edge) empty_sheet sample_creations))
       = map node_id (sheet_nodes empty_sheet)
         @ map new_node_id (run_node_stamps append_edge empty_sheet sample_creations)"
    by simp_all
  from r(2) have "map node_id (sheet_nodes (foldl (create append_edge) empty_sheet sample_creations))
        = [''node-7'', ''node-8'', ''node-9'']"
    unfolding n by (simp add: empty_sheet_def new_node_id_def s)
  with u n e c l x r(1) show ?thesis
    by simp
qed

end
